theory Spec2Isabelle
  imports Main
begin

unbundle bit_operations_syntax

section \<open>myShell: the parser and the pipeline engine of \<open>main.cpp\<close>\<close>

text \<open>
  A shallow embedding of the shell of \<open>src/main.cpp\<close>: the two scanners \<open>tokenize\<close> and
  \<open>splitByPipe\<close>, the child side \<open>run_cmd\<close>, and the parent side of one iteration of the
  read loop of \<open>main\<close> (dispatch of the built-ins and the pipe loop).

  Strings are \<open>char list\<close>, and indices are natural numbers. The source mixes \<open>int\<close>,
  \<open>unsigned int\<close> and \<open>size_t\<close>; the indices never go below zero and an input line is
  far shorter than \<open>2^31\<close> characters, so the only place where the machine arithmetic
  shows is \<open>input.size() - 1\<close>, which wraps around for the empty string
  (\<open>size_minus_one\<close>). System calls are recorded as lists of calls, in program order: what
  the kernel answers is a parameter wherever the control flow of the shell depends on it
  (\<open>fork\<close>, \<open>chdir\<close>).
\<close>

subsection \<open>Strings of the C++ library\<close>

text \<open>
  \<open>OutOfRange\<close> is the exception \<open>std::out_of_range\<close>, thrown by \<open>substr\<close> when the
  position lies beyond the end of the string; \<open>Undefined\<close> marks undefined behaviour (a
  vector indexed past its end).
\<close>

datatype error = OutOfRange | Undefined

text \<open>The double quote character.\<close>

definition dquote :: char where
  "dquote = CHR 0x22"

text \<open>
  \<open>s[i]\<close> of \<open>std::string\<close>: the character at \<open>i\<close>, and the terminating null character
  at \<open>i = s.size()\<close>. The source never reads beyond that.
\<close>

definition at :: "string \<Rightarrow> nat \<Rightarrow> char" where
  "at s i = (if i < length s then s ! i else CHR 0x00)"

text \<open>
  \<open>s.substr(pos, len)\<close>. The source passes an \<open>int\<close> difference for \<open>len\<close>; a negative one
  would convert to a huge \<open>size_t\<close>, that is, to the rest of the string.
  \<open>substr_from\<close> is \<open>s.substr(pos)\<close>.
\<close>

definition substr :: "string \<Rightarrow> nat \<Rightarrow> int \<Rightarrow> error + string" where
  "substr s pos len =
     (if length s < pos then Inl OutOfRange
      else if len < 0 then Inr (drop pos s)
      else Inr (take (nat len) (drop pos s)))"

definition substr_from :: "string \<Rightarrow> nat \<Rightarrow> error + string" where
  "substr_from s pos = (if length s < pos then Inl OutOfRange else Inr (drop pos s))"

text \<open>
  \<open>input.size() - 1\<close> in \<open>size_t\<close> (64 bits): for the empty string the subtraction wraps
  around to \<open>2^64 - 1\<close>.
\<close>

definition size_minus_one :: "nat \<Rightarrow> nat" where
  "size_minus_one n = (if n = 0 then 2 ^ 64 - 1 else n - 1)"

text \<open>
  The line \<^verbatim>\<open>if (start < input.size() && input[start] == ' ') start++;\<close>, which both
  scanners run after a delimiter.
\<close>

definition skip_one_space :: "string \<Rightarrow> nat \<Rightarrow> nat" where
  "skip_one_space input start =
     (if start < length input \<and> input ! start = CHR '' '' then start + 1 else start)"

subsection \<open>\<open>tokenize\<close> (lines 237 to 266)\<close>

text \<open>
  The inner loop \<^verbatim>\<open>while (i < input.size() && input[i] != '"') i++;\<close>: the index of the
  next double quote at or after \<open>i\<close>, or the length of the input.
\<close>

function find_quote :: "string \<Rightarrow> nat \<Rightarrow> nat" where
  "find_quote input i =
     (if i < length input \<and> input ! i \<noteq> dquote then find_quote input (i + 1) else i)"
  by pat_completeness auto
termination
  by (relation "measure (\<lambda>(input, i). length input - i)") auto

declare find_quote.simps [simp del]

lemma find_quote_ge: "i \<le> find_quote input i"
proof (induction input i rule: find_quote.induct)
  case (1 input i)
  then show ?case
    by (subst find_quote.simps) auto
qed

text \<open>
  The \<open>for\<close> loop of \<open>tokenize\<close>, from index \<open>i\<close> with the current \<open>start\<close> and the tokens
  pushed so far; it returns the final \<open>start\<close> and the tokens. A space pushes
  \<open>input[start..i)\<close>. A double quote at \<open>i\<close> sets \<open>start\<close> behind it (the text before the
  quote is dropped), pushes the text up to the next quote \<open>j\<close> (or to the end), sets
  \<open>start\<close> behind that quote, skips one space there, and the loop goes on at \<open>j + 2\<close>:
  \<open>start = ++i\<close> has moved \<open>i\<close> to \<open>j + 1\<close> and the loop header adds one.
\<close>

function tokenize_loop ::
  "string \<Rightarrow> nat \<Rightarrow> nat \<Rightarrow> string list \<Rightarrow> error + (nat \<times> string list)" where
  "tokenize_loop input i start tokens =
     (if i < length input then
        (if input ! i = CHR '' '' then
           (case substr input start (int i - int start) of
              Inl e \<Rightarrow> Inl e
            | Inr t \<Rightarrow> tokenize_loop input (i + 1) (i + 1) (tokens @ [t]))
         else if input ! i = dquote then
           (let j = find_quote input (i + 1) in
            case substr input (i + 1) (int j - int (i + 1)) of
              Inl e \<Rightarrow> Inl e
            | Inr t \<Rightarrow>
                tokenize_loop input (j + 2) (skip_one_space input (j + 1)) (tokens @ [t]))
         else tokenize_loop input (i + 1) start tokens)
      else Inr (start, tokens))"
  by pat_completeness auto
termination
proof (relation "measure (\<lambda>(input, i, start, tokens). length input - i)")
  show "wf (measure (\<lambda>(input, i, start, tokens). length input - i))"
    by simp
next
  fix input :: string and i start :: nat and tokens :: "string list" and t :: string
  assume "i < length input"
  then show "((input, i + 1, i + 1, tokens @ [t]), input, i, start, tokens)
      \<in> measure (\<lambda>(input, i, start, tokens). length input - i)"
    by simp
next
  fix input :: string and i start :: nat and tokens :: "string list" and j :: nat and t :: string
  assume "i < length input" and "j = find_quote input (i + 1)"
  moreover have "i + 1 \<le> find_quote input (i + 1)"
    by (rule find_quote_ge)
  ultimately show "((input, j + 2, skip_one_space input (j + 1), tokens @ [t]),
        input, i, start, tokens)
      \<in> measure (\<lambda>(input, i, start, tokens). length input - i)"
    by simp
next
  fix input :: string and i start :: nat and tokens :: "string list"
  assume "i < length input"
  then show "((input, i + 1, start, tokens), input, i, start, tokens)
      \<in> measure (\<lambda>(input, i, start, tokens). length input - i)"
    by simp
qed

declare tokenize_loop.simps [simp del]

text \<open>
  \<open>tokenize\<close>: the loop, then
  \<^verbatim>\<open>if (start < input.size()-1) tokens.push_back(input.substr(start));\<close>.
\<close>

definition tokenize :: "string \<Rightarrow> error + string list" where
  "tokenize input =
     (case tokenize_loop input 0 0 [] of
        Inl e \<Rightarrow> Inl e
      | Inr (start, tokens) \<Rightarrow>
          if start < size_minus_one (length input) then
            (case substr_from input start of
               Inl e \<Rightarrow> Inl e
             | Inr t \<Rightarrow> Inr (tokens @ [t]))
          else Inr tokens)"

subsection \<open>\<open>splitByPipe\<close> (lines 203 to 235)\<close>

text \<open>
  The inner loop \<^verbatim>\<open>while (i < input.size() && input[++i] != '"');\<close> entered at an
  opening quote \<open>i\<close>: the index of the next double quote behind \<open>i\<close>, or the length of the
  input.
\<close>

function skip_quote :: "string \<Rightarrow> nat \<Rightarrow> nat" where
  "skip_quote input i =
     (if i < length input then
        (if at input (i + 1) \<noteq> dquote then skip_quote input (i + 1) else i + 1)
      else i)"
  by pat_completeness auto
termination
  by (relation "measure (\<lambda>(input, i). length input - i)") auto

declare skip_quote.simps [simp del]

lemma skip_quote_ge: "i \<le> skip_quote input i"
proof (induction input i rule: skip_quote.induct)
  case (1 input i)
  then show ?case
    by (subst skip_quote.simps) auto
qed

text \<open>
  The \<open>for\<close> loop of \<open>splitByPipe\<close>; \<open>outp\<close> is the vector \<open>output\<close> of the source. Every
  character the loop visits is first compared with \<open>&\<close>; a \<open>|\<close> or \<open>;\<close> pushes
  \<open>input[start..i)\<close> and moves \<open>start\<close> behind the separator and one space; a double quote
  moves \<open>i\<close> to the closing quote without looking at the characters in between.
\<close>

function split_loop ::
  "string \<Rightarrow> nat \<Rightarrow> nat \<Rightarrow> bool \<Rightarrow> string list \<Rightarrow> error + (nat \<times> bool \<times> string list)" where
  "split_loop input i start background outp =
     (if i < length input then
        (if input ! i = CHR ''|'' \<or> input ! i = CHR '';'' then
           (case substr input start (int i - int start) of
              Inl e \<Rightarrow> Inl e
            | Inr seg \<Rightarrow>
                split_loop input (i + 1) (skip_one_space input (i + 1))
                  (background \<or> input ! i = CHR ''&'') (outp @ [seg]))
         else if input ! i = dquote then
           split_loop input (skip_quote input i + 1) start
             (background \<or> input ! i = CHR ''&'') outp
         else split_loop input (i + 1) start (background \<or> input ! i = CHR ''&'') outp)
      else Inr (start, background, outp))"
  by pat_completeness auto
termination
proof (relation "measure (\<lambda>(input, i, start, background, outp). length input - i)",
    goal_cases)
  case 1
  show ?case by simp
next
  case (2 input i start background outp seg)
  then show ?case by simp
next
  case (3 input i start background outp)
  moreover have "i \<le> skip_quote input i"
    by (rule skip_quote_ge)
  ultimately show ?case by simp
next
  case (4 input i start background outp)
  then show ?case by simp
qed

declare split_loop.simps [simp del]

text \<open>
  \<open>splitByPipe\<close>: the loop, the rest of the line under the same test \<open>start < input.size()-1\<close>,
  and the marker \<open>&\<close> or \<open>-\<close> as the last element.
\<close>

definition splitByPipe :: "string \<Rightarrow> error + string list" where
  "splitByPipe input =
     (case split_loop input 0 0 False [] of
        Inl e \<Rightarrow> Inl e
      | Inr (start, background, outp) \<Rightarrow>
          (case (if start < size_minus_one (length input)
                 then (case substr_from input start of
                         Inl e \<Rightarrow> Inl e
                       | Inr seg \<Rightarrow> Inr (outp @ [seg]))
                 else Inr outp) of
             Inl e \<Rightarrow> Inl e
           | Inr outp' \<Rightarrow> Inr (outp' @ [if background then ''&'' else ''-''])))"

text \<open>
  What \<open>main\<close> does with the result (lines 108 to 112): the last element is compared with
  \<open>&\<close> and popped.
\<close>

definition parse_line :: "string \<Rightarrow> error + string list \<times> bool" where
  "parse_line input =
     (case splitByPipe input of
        Inl x \<Rightarrow> Inl x
      | Inr piped \<Rightarrow> Inr (butlast piped, last piped = ''&''))"

subsection \<open>The scanners as functions on the list of characters\<close>

text \<open>
  The two scanners once more, by recursion on the characters that are left, in the words
  of the specification: \<open>segments_spec q cur rest\<close> is the list of segments of \<open>rest\<close>
  when \<open>cur\<close> is the text of the segment under way and \<open>q\<close> says that a quoted span is
  open. A \<open>|\<close> or \<open>;\<close> outside quotes ends the segment and one space behind it is
  skipped; the last element is the text behind the last separator. \<open>unquoted_amp\<close> says
  whether a \<open>&\<close> stands outside quotes. \<open>split_spec\<close> puts the result of \<open>splitByPipe\<close>
  together from them. The lemmas \<open>splitByPipe_refines\<close> and \<open>tokenize_refines\<close> below
  prove that the loops of the source compute exactly these functions.
\<close>

fun skip_space :: "string \<Rightarrow> string" where
  "skip_space [] = []"
| "skip_space (c # cs) = (if c = CHR '' '' then cs else c # cs)"

lemma length_skip_space: "length (skip_space cs) \<le> length cs"
  by (cases cs) auto

function (sequential) segments_spec :: "bool \<Rightarrow> string \<Rightarrow> string \<Rightarrow> string list" where
  "segments_spec q cur [] = [cur]"
| "segments_spec True cur (c # cs) = segments_spec (c \<noteq> dquote) (cur @ [c]) cs"
| "segments_spec False cur (c # cs) =
     (if c = CHR ''|'' \<or> c = CHR '';'' then cur # segments_spec False [] (skip_space cs)
      else segments_spec (c = dquote) (cur @ [c]) cs)"
  by pat_completeness auto
termination
  by (relation "measure (\<lambda>(q, cur, rest). length rest)")
    (auto simp: length_skip_space less_Suc_eq_le)

fun unquoted_amp :: "bool \<Rightarrow> string \<Rightarrow> bool" where
  "unquoted_amp q [] = False"
| "unquoted_amp True (c # cs) = unquoted_amp (c \<noteq> dquote) cs"
| "unquoted_amp False (c # cs) = (c = CHR ''&'' \<or> unquoted_amp (c = dquote) cs)"

definition split_spec :: "string \<Rightarrow> string list" where
  "split_spec input =
     (let S = segments_spec False [] input in
      butlast S @ (if input = [] \<or> 2 \<le> length (last S) then [last S] else [])
        @ [if unquoted_amp False input then ''&'' else ''-''])"

definition drop_trailing_empty :: "string list \<Rightarrow> string list" where
  "drop_trailing_empty S = (if last S = [] then butlast S else S)"

text \<open>
  \<open>tokens_spec cur rest\<close>: the tokens of \<open>rest\<close> when \<open>cur\<close> is the text of the token under
  way; the last element is the text behind the last delimiter. A space ends the token. A
  double quote drops the text under way, and the text up to the next quote is one token;
  the character behind the closing quote is skipped if it is a space and starts the next
  token otherwise.
\<close>

function (sequential) tokens_spec :: "string \<Rightarrow> string \<Rightarrow> string list" where
  "tokens_spec cur [] = [cur]"
| "tokens_spec cur (c # cs) =
     (if c = CHR '' '' then cur # tokens_spec [] cs
      else if c = dquote then
        takeWhile (\<lambda>x. x \<noteq> dquote) cs #
          (case drop 1 (dropWhile (\<lambda>x. x \<noteq> dquote) cs) of
             [] \<Rightarrow> [[]]
           | x # r \<Rightarrow> if x = CHR '' '' then tokens_spec [] r else tokens_spec [x] r)
      else tokens_spec (cur @ [c]) cs)"
  by pat_completeness auto
termination
proof (relation "measure (\<lambda>(cur, rest). length rest)", goal_cases)
  case 1
  show ?case by simp
next
  case (2 cur c cs)
  then show ?case by simp
next
  case (3 cur c cs x r)
  have "length (drop 1 (dropWhile (\<lambda>x. x \<noteq> dquote) cs)) \<le> length cs"
    using length_dropWhile_le [of "\<lambda>x. x \<noteq> dquote" cs] by simp
  with 3 show ?case by simp
next
  case (4 cur c cs x r)
  have "length (drop 1 (dropWhile (\<lambda>x. x \<noteq> dquote) cs)) \<le> length cs"
    using length_dropWhile_le [of "\<lambda>x. x \<noteq> dquote" cs] by simp
  with 4 show ?case by simp
next
  case (5 cur c cs)
  then show ?case by simp
qed

definition tokenize_spec :: "string \<Rightarrow> string list" where
  "tokenize_spec input =
     (let T = tokens_spec [] input in
      butlast T @ (if input = [] \<or> 2 \<le> length (last T) then [last T] else []))"

subsection \<open>\<open>run_cmd\<close>: the child (lines 155 to 201)\<close>

text \<open>
  The constants of \<open><fcntl.h>\<close> and \<open><sys/stat.h>\<close> that the macros of lines 10 to 12 name,
  with their values on Linux (octal 0100 for \<open>O_CREAT\<close>, 01000 for \<open>O_TRUNC\<close>, 02000 for
  \<open>O_APPEND\<close>, 0400, 0200, 040, 020, 04, 02 for the permission bits). \<open>FILEFLAGS\<close> and
  \<open>FILEFLAGS_APPEND\<close> are the macros as written: the permission bits are or-ed into the
  flags, and \<open>FILEFLAGS_APPEND\<close> names no \<open>O_CREAT\<close>. \<open>RW_PERMS\<close> is octal 0666.
\<close>

definition O_RDONLY :: int where "O_RDONLY = 0"
definition O_WRONLY :: int where "O_WRONLY = 1"
definition O_ACCMODE :: int where "O_ACCMODE = 3"
definition O_CREAT :: int where "O_CREAT = 64"
definition O_TRUNC :: int where "O_TRUNC = 512"
definition O_APPEND :: int where "O_APPEND = 1024"
definition S_IRUSR :: int where "S_IRUSR = 256"
definition S_IWUSR :: int where "S_IWUSR = 128"
definition S_IRGRP :: int where "S_IRGRP = 32"
definition S_IWGRP :: int where "S_IWGRP = 16"
definition S_IROTH :: int where "S_IROTH = 4"
definition S_IWOTH :: int where "S_IWOTH = 2"

definition FILEFLAGS :: int where
  "FILEFLAGS = O_CREAT OR O_WRONLY OR O_TRUNC OR S_IRUSR OR S_IWUSR OR S_IRGRP OR S_IROTH"

definition FILEFLAGS_APPEND :: int where
  "FILEFLAGS_APPEND = O_APPEND OR O_WRONLY OR S_IRUSR OR S_IWUSR OR S_IRGRP OR S_IROTH"

definition RW_PERMS :: int where "RW_PERMS = 438"

text \<open>
  How \<open>open\<close> reads its arguments, after \<open>open(2)\<close>. The flags are one word of bits, and
  a bit counts under the name that \<open><fcntl.h>\<close> gives it, whatever macro it came from:
  octal 0200 is \<open>O_EXCL\<close> and is also the value of \<open>S_IWUSR\<close>. With \<open>O_CREAT\<close> an absent
  file is created, with the permission bits of the third argument (before the umask of the
  process is applied); without it the call fails with \<open>ENOENT\<close>. With \<open>O_CREAT\<close> and
  \<open>O_EXCL\<close> together the call fails with \<open>EEXIST\<close> when the file exists. An existing file
  that is opened is truncated when the flags hold \<open>O_TRUNC\<close> and the access mode allows
  writing. With \<open>O_APPEND\<close> every write goes to the end of the file. The two lowest bits
  are the access mode.
\<close>

definition O_EXCL :: int where "O_EXCL = 128"

definition creates_if_absent :: "int \<Rightarrow> bool" where
  "creates_if_absent flags = (flags AND O_CREAT \<noteq> 0)"

definition exclusive :: "int \<Rightarrow> bool" where
  "exclusive flags = (flags AND O_EXCL \<noteq> 0)"

definition access_mode :: "int \<Rightarrow> int" where
  "access_mode flags = flags AND O_ACCMODE"

datatype open_error = EEXIST | ENOENT

text \<open>
  The outcome of an \<open>open\<close> call on a path that names a file (\<open>present\<close>) or no file:
  the call fails, or it creates the file with the given permission argument, or it opens
  the existing file and truncates it or not.
\<close>

datatype open_outcome = Open_fails open_error | Created "int option" | Opened bool

definition open_file :: "bool \<Rightarrow> int \<Rightarrow> int option \<Rightarrow> open_outcome" where
  "open_file present flags mode =
     (if present then
        (if creates_if_absent flags \<and> exclusive flags then Open_fails EEXIST
         else Opened (flags AND O_TRUNC \<noteq> 0 \<and> access_mode flags \<noteq> O_RDONLY))
      else if creates_if_absent flags then Created mode
      else Open_fails ENOENT)"

definition append_mode :: "int \<Rightarrow> bool" where
  "append_mode flags = (flags AND O_APPEND \<noteq> 0)"

definition grants :: "int \<Rightarrow> int \<Rightarrow> bool" where
  "grants mode perm = (mode AND perm \<noteq> 0)"

text \<open>
  Descriptors by name. \<open>PipeRd k\<close> and \<open>PipeWr k\<close> are the two ends that the \<open>k\<close>-th
  \<open>pipe\<close> call of an iteration stores in \<open>fd[0]\<close> and \<open>fd[1]\<close>; \<open>Indeterminate\<close> is the
  value of \<open>fd[0]\<close> and \<open>fd[1]\<close> before any \<open>pipe\<close> call (the array is declared in the
  loop body without an initialiser); \<open>FileFd\<close> is the descriptor that the preceding
  \<open>open\<close> has returned.
\<close>

datatype fd = STDIN_FILENO | STDOUT_FILENO | ORIG_STDIN | PipeRd nat | PipeWr nat
  | Indeterminate | FileFd

text \<open>
  The system calls of a child, in order: \<open>setpgid(0, 0)\<close>, \<open>close\<close>, \<open>open\<close> with its flags
  and, where the source passes one, its mode, \<open>dup2\<close>, and \<open>execvp\<close> with the argument
  vector (without the terminating null pointer). A child never returns to the loop of
  \<open>main\<close>: when \<open>execvp\<close> fails it prints error 1 and exits.
\<close>

datatype syscall =
    Setpgid
  | Close fd
  | Open string int "int option"
  | Dup2 fd fd
  | Execvp "string list"

text \<open>
  \<open>run_cmd\<close> behind the call of \<open>tokenize\<close> (lines 162 to 195): \<open>FFLAGS\<close> and \<open>ARGC\<close> as in
  the source, the three tests on the second-to-last token, and \<open>execvp\<close> on the first
  \<open>ARGC - 1\<close> tokens.
\<close>

definition run_cmd_tokens :: "string list \<Rightarrow> syscall list" where
  "run_cmd_tokens tokenized =
     (let n = length tokenized;
          ARGC0 = int n + 1
      in if 1 < n then
           (let t = tokenized ! (n - 2);
                FFLAGS = (if t = ''>>'' then FILEFLAGS_APPEND else FILEFLAGS);
                redirect_out = (at t 0 = CHR ''>'');
                redirect_in = (t = ''<'');
                ARGC1 = (if redirect_out then ARGC0 - 2 else ARGC0);
                ARGC = (if redirect_in then ARGC1 - 2 else ARGC1)
            in (if redirect_out
                then [Close STDOUT_FILENO, Open (last tokenized) FFLAGS (Some RW_PERMS),
                      Dup2 FileFd STDOUT_FILENO]
                else [])
               @ (if redirect_in
                  then [Close STDIN_FILENO, Open (last tokenized) O_RDONLY None,
                        Dup2 FileFd STDIN_FILENO]
                  else [])
               @ [Execvp (take (nat (ARGC - 1)) tokenized)])
         else [Execvp (take (nat (ARGC0 - 1)) tokenized)])"

definition run_cmd :: "string \<Rightarrow> bool \<Rightarrow> error + syscall list" where
  "run_cmd cmd is_background =
     (case tokenize cmd of
        Inl e \<Rightarrow> Inl e
      | Inr tokenized \<Rightarrow>
          Inr ((if is_background then [Setpgid] else []) @ run_cmd_tokens tokenized))"

text \<open>
  Redirection resolution in the words of the specification: the redirect of a token list
  and the tokens that remain, and the calls that apply a redirect. \<open>NoRedirect\<close> is the
  variant that the specification calls \<open>None\<close>.
\<close>

datatype RedirectSpec = NoRedirect | OutputTruncate string | OutputAppend string | Input string

definition resolve_spec :: "string list \<Rightarrow> string list \<times> RedirectSpec" where
  "resolve_spec tokens =
     (if 1 < length tokens then
        (let t = tokens ! (length tokens - 2) in
         if t = ''>>'' then (butlast (butlast tokens), OutputAppend (last tokens))
         else if t \<noteq> [] \<and> hd t = CHR ''>'' then
           (butlast (butlast tokens), OutputTruncate (last tokens))
         else if t = ''<'' then (butlast (butlast tokens), Input (last tokens))
         else (tokens, NoRedirect))
      else (tokens, NoRedirect))"

fun redirect_calls :: "RedirectSpec \<Rightarrow> syscall list" where
  "redirect_calls NoRedirect = []"
| "redirect_calls (OutputTruncate path) =
     [Close STDOUT_FILENO, Open path FILEFLAGS (Some RW_PERMS), Dup2 FileFd STDOUT_FILENO]"
| "redirect_calls (OutputAppend path) =
     [Close STDOUT_FILENO, Open path FILEFLAGS_APPEND (Some RW_PERMS), Dup2 FileFd STDOUT_FILENO]"
| "redirect_calls (Input path) =
     [Close STDIN_FILENO, Open path O_RDONLY None, Dup2 FileFd STDIN_FILENO]"

subsection \<open>The read loop of \<open>main\<close>: the parent (lines 64 to 150)\<close>

text \<open>The colour table of lines 15 to 29; \<open>ESC\<close> is the escape character.\<close>

definition ESC :: char where
  "ESC = CHR 0x1B"

definition COLORS :: "(string \<times> string) list" where
  "COLORS =
     [(''red'', ESC # ''[0;31m''), (''bred'', ESC # ''[1;31m''),
      (''green'', ESC # ''[0;32m''), (''bgreen'', ESC # ''[1;32m''),
      (''yellow'', ESC # ''[0;33m''), (''byellow'', ESC # ''[01;33m''),
      (''blue'', ESC # ''[0;34m''), (''bblue'', ESC # ''[1;34m''),
      (''magenta'', ESC # ''[0;35m''), (''bmagenta'', ESC # ''[1;35m''),
      (''cyan'', ESC # ''[0;36m''), (''bcyan'', ESC # ''[1;36m''),
      (''reset'', ESC # ''[0m'')]"

text \<open>
  What the parent does, in order: \<open>Waitid\<close> is \<open>waitid\<close> with its id type, its id and its
  options (the source calls \<^verbatim>\<open>waitid(P_PID, 0, &status, WNOHANG)\<close>, line 66),
  \<open>PDup2\<close> and \<open>PClose\<close> are \<open>dup2\<close> and \<open>close\<close>,
  \<open>Prompt\<close> and \<open>Getline\<close> print the prompt and read the line, \<open>Pipe k\<close> is the \<open>k\<close>-th
  \<open>pipe(fd)\<close> of the iteration (the source does not test its result, and it is taken
  to succeed), \<open>Fork\<close> holds the calls of the child it creates
  (\<open>None\<close> when \<open>fork\<close> fails), \<open>Wait\<close> is \<open>wait(NULL)\<close>, \<open>Print_error n\<close> is
  \<open>print_error(n)\<close>.
\<close>

datatype idtype = P_ALL | P_PID | P_PGID

datatype wait_option = WEXITED | WSTOPPED | WCONTINUED | WNOHANG | WNOWAIT

datatype event =
    Waitid idtype nat "wait_option list"
  | PDup2 fd fd
  | Prompt
  | Getline string
  | Clear_screen
  | Chdir_home
  | Chdir string
  | Print_cwd
  | Print string
  | Print_error nat
  | Pipe nat
  | Fork "(error + syscall list) option"
  | PClose fd
  | Wait

text \<open>
  The answers of the kernel that the control flow depends on: whether the \<open>k\<close>-th \<open>fork\<close>
  of the iteration succeeds, and whether \<open>chdir\<close> to a directory succeeds.
\<close>

record env =
  fork_ok :: "nat \<Rightarrow> bool"
  chdir_ok :: "string \<Rightarrow> bool"

definition handle_cd :: "env \<Rightarrow> string \<Rightarrow> event list" where
  "handle_cd e dir =
     (if dir = [] then [Chdir_home]
      else if chdir_ok e dir then [Chdir dir]
      else [Chdir dir, Print_error 2])"

definition handle_pwd :: "event list" where
  "handle_pwd = [Print_cwd]"

definition handle_color :: "string \<Rightarrow> event list" where
  "handle_color color =
     (case map_of COLORS color of
        None \<Rightarrow> [Print (''[color] error: no such color found.'' @ [CHR 0x0A])]
      | Some esc \<Rightarrow> [Print esc])"

definition clear_screen :: "event list" where
  "clear_screen = [Clear_screen]"

text \<open>
  The child of the \<open>i\<close>-th turn of the pipe loop (lines 129 to 132), and the child of the
  last fork (line 147). \<open>piped[i]\<close> beyond the end of the vector and \<open>piped.back()\<close> of an
  empty vector are undefined.
\<close>

definition child_stage :: "string list \<Rightarrow> bool \<Rightarrow> nat \<Rightarrow> error + syscall list" where
  "child_stage piped is_background i =
     (if i < length piped then
        (case run_cmd (piped ! i) is_background of
           Inl e \<Rightarrow> Inl e
         | Inr calls \<Rightarrow> Inr (Dup2 (PipeWr i) STDOUT_FILENO # calls))
      else Inl Undefined)"

definition child_last :: "string list \<Rightarrow> bool \<Rightarrow> error + syscall list" where
  "child_last piped is_background =
     (if piped = [] then Inl Undefined else run_cmd (last piped) is_background)"

text \<open>
  The pipe loop (lines 117 to 139) from turn \<open>i\<close>, with the array \<open>fd\<close> and the events so
  far. The bound is \<open>piped.size() - 1\<close> in \<open>size_t\<close>. A failed \<open>fork\<close> prints error 0 and
  leaves the loop. The result is the number of \<open>fork\<close> calls made, the array and the
  events.
\<close>

function pipe_loop ::
  "(nat \<Rightarrow> bool) \<Rightarrow> string list \<Rightarrow> bool \<Rightarrow> nat \<Rightarrow> fd \<times> fd \<Rightarrow> event list \<Rightarrow>
     nat \<times> (fd \<times> fd) \<times> event list" where
  "pipe_loop forks piped is_background i fd tr =
     (if i < size_minus_one (length piped) then
        (if \<not> forks i then
           (i + 1, (PipeRd i, PipeWr i), tr @ [Pipe i, Fork None, Print_error 0])
         else
           pipe_loop forks piped is_background (i + 1) (PipeRd i, PipeWr i)
             (tr @ [Pipe i, Fork (Some (child_stage piped is_background i)),
                    PDup2 (PipeRd i) STDIN_FILENO, PClose (PipeWr i)]))
      else (i, fd, tr))"
  by pat_completeness auto
termination
  by (relation "measure (\<lambda>(forks, piped, is_background, i, fd, tr).
        size_minus_one (length piped) - i)") auto

declare pipe_loop.simps [simp del]

text \<open>
  Lines 115 to 149: the loop, then \<open>dup2(fd[0], STDIN_FILENO)\<close>, the last \<open>fork\<close>, the
  \<open>wait\<close> of a foreground pipeline (also after a failed \<open>fork\<close>, as in the source), and
  \<open>close(fd[1])\<close>.
\<close>

definition run_pipeline :: "(nat \<Rightarrow> bool) \<Rightarrow> string list \<Rightarrow> bool \<Rightarrow> event list" where
  "run_pipeline forks piped is_background =
     (case pipe_loop forks piped is_background 0 (Indeterminate, Indeterminate) [] of
        (k, (fd0, fd1), tr) \<Rightarrow>
          tr @ [PDup2 fd0 STDIN_FILENO]
             @ (if forks k then [Fork (Some (child_last piped is_background))]
                else [Fork None, Print_error 0])
             @ (if is_background then [] else [Wait])
             @ [PClose fd1])"

text \<open>
  The dispatch of the built-ins (lines 76 to 105). \<open>starts_with input p\<close> is
  \<^verbatim>\<open>!input.rfind(p, 0)\<close>. Every branch but two ends the iteration (\<open>Done\<close>): the branch of
  the bare \<open>cd\<close> has no \<open>continue\<close>, and a line that is no built-in reaches the pipeline
  code (\<open>Fall_through\<close>). \<open>input.substr(6)\<close> throws when the line is shorter than six
  characters, and nothing catches it (\<open>Terminated\<close>).
\<close>

definition starts_with :: "string \<Rightarrow> string \<Rightarrow> bool" where
  "starts_with input p = (take (length p) input = p)"

datatype outcome = Return nat | Continue | Terminated

datatype dispatch = Done "event list" outcome | Fall_through "event list"

definition dispatch_builtin :: "env \<Rightarrow> string \<Rightarrow> dispatch" where
  "dispatch_builtin e input =
     (if input = ''exit'' then Done [] (Return 0)
      else if input = ''clear'' \<or> input = ''cls'' then Done clear_screen Continue
      else if input = ''cd'' then Fall_through (handle_cd e [])
      else if starts_with input ''cd '' then
        (case substr_from input 3 of
           Inl x \<Rightarrow> Done [] Terminated
         | Inr dir \<Rightarrow> Done (handle_cd e dir) Continue)
      else if input = ''pwd'' \<or> starts_with input ''pwd '' then Done handle_pwd Continue
      else if starts_with input ''color'' then
        (case substr_from input 6 of
           Inl x \<Rightarrow> Done [] Terminated
         | Inr color \<Rightarrow> Done (handle_color color) Continue)
      else Fall_through [])"

text \<open>
  One iteration of the loop for the line \<open>input\<close>: the \<open>waitid\<close> call, the reset of
  the standard input, the prompt and the line (lines 66 to 74), the dispatch, and for a
  line that falls through the pipeline of its segments.
\<close>

definition prologue :: "string \<Rightarrow> event list" where
  "prologue input =
     [Waitid P_PID 0 [WNOHANG], PDup2 ORIG_STDIN STDIN_FILENO, Prompt, Getline input]"

definition shell_iteration :: "env \<Rightarrow> string \<Rightarrow> event list \<times> outcome" where
  "shell_iteration e input =
     (case dispatch_builtin e input of
        Done evs out \<Rightarrow> (prologue input @ evs, out)
      | Fall_through evs \<Rightarrow>
          (case splitByPipe input of
             Inl x \<Rightarrow> (prologue input @ evs, Terminated)
           | Inr piped \<Rightarrow>
               (prologue input @ evs
                  @ run_pipeline (fork_ok e) (butlast piped) (last piped = ''&''),
                Continue)))"

subsection \<open>Reading the events\<close>

text \<open>
  The pipe ends that the parent holds open after a list of events: \<open>pipe\<close> opens the two
  ends, \<open>close\<close> of an end closes it, and no other call of the parent closes a pipe end
  (\<open>dup2\<close> onto the standard input makes descriptor 0 one more name of the read end and
  leaves the end itself open). \<open>pipes_created\<close> counts the \<open>pipe\<close> calls.
\<close>

fun held_step :: "fd list \<Rightarrow> event \<Rightarrow> fd list" where
  "held_step S (Pipe k) = S @ [PipeRd k, PipeWr k]"
| "held_step S (PClose x) = removeAll x S"
| "held_step S ev = S"

definition held_pipe_ends :: "event list \<Rightarrow> fd list" where
  "held_pipe_ends tr = foldl held_step [] tr"

fun is_pipe :: "event \<Rightarrow> bool" where
  "is_pipe (Pipe k) = True"
| "is_pipe ev = False"

definition pipes_created :: "event list \<Rightarrow> nat" where
  "pipes_created tr = length (filter is_pipe tr)"

fun is_fork :: "event \<Rightarrow> bool" where
  "is_fork (Fork c) = True"
| "is_fork ev = False"

text \<open>
  How the parent's two wait calls read, after \<open>waitid(2)\<close>, \<open>wait(2)\<close> and the kernel. The
  options of \<open>waitid\<close> must name at least one of \<open>WEXITED\<close>, \<open>WSTOPPED\<close> and \<open>WCONTINUED\<close>,
  the changes of state to wait for, and with \<open>P_PID\<close> the id must be a process id, which 0
  is not; otherwise the call fails with \<open>EINVAL\<close>. \<open>collects ev\<close> is the selection of
  children of which the call \<open>ev\<close> collects one that has terminated, so that it is no zombie
  any more: a valid \<open>waitid\<close> with \<open>WEXITED\<close> and without \<open>WNOWAIT\<close> collects from the
  children that its id type and id select; \<open>wait(NULL)\<close> collects any one child, whichever
  terminates first; no other call collects a child. \<open>blocks ev\<close> says that the call may
  suspend the parent: \<open>wait(NULL)\<close>, and a valid \<open>waitid\<close> without \<open>WNOHANG\<close>.
\<close>

definition waitid_einval :: "idtype \<Rightarrow> nat \<Rightarrow> wait_option list \<Rightarrow> bool" where
  "waitid_einval idt i opts =
     ((idt = P_PID \<and> i = 0) \<or>
      filter (\<lambda>x. x = WEXITED \<or> x = WSTOPPED \<or> x = WCONTINUED) opts = [])"

fun collects :: "event \<Rightarrow> (idtype \<times> nat) option" where
  "collects (Waitid idt i opts) =
     (if waitid_einval idt i opts then None
      else if WEXITED \<in> set opts \<and> WNOWAIT \<notin> set opts then Some (idt, i)
      else None)"
| "collects Wait = Some (P_ALL, 0)"
| "collects ev = None"

fun blocks :: "event \<Rightarrow> bool" where
  "blocks (Waitid idt i opts) = (if waitid_einval idt i opts then False else WNOHANG \<notin> set opts)"
| "blocks Wait = True"
| "blocks ev = False"

definition collecting :: "event list \<Rightarrow> event list" where
  "collecting tr = filter (\<lambda>ev. collects ev \<noteq> None) tr"


section \<open>The loops compute the functions on character lists\<close>

subsection \<open>\<open>splitByPipe\<close>\<close>

lemma skip_quote_props:
  "i < length input \<Longrightarrow>
     i < skip_quote input i \<and> skip_quote input i \<le> length input \<and>
     (\<forall>k. i < k \<and> k < skip_quote input i \<longrightarrow> input ! k \<noteq> dquote) \<and>
     (skip_quote input i < length input \<longrightarrow> input ! skip_quote input i = dquote)"
proof (induction input i rule: skip_quote.induct)
  case (1 input i)
  show ?case
  proof (cases "at input (i + 1) \<noteq> dquote")
    case False
    then have "skip_quote input i = i + 1"
      using "1.prems" by (subst skip_quote.simps) simp
    moreover from False have "i + 1 < length input" "input ! (i + 1) = dquote"
      by (auto simp: at_def dquote_def split: if_splits)
    ultimately show ?thesis by auto
  next
    case True
    then have eq: "skip_quote input i = skip_quote input (i + 1)"
      using "1.prems" by (subst skip_quote.simps) simp
    show ?thesis
    proof (cases "i + 1 < length input")
      case False
      then have "skip_quote input (i + 1) = i + 1"
        by (subst skip_quote.simps) simp
      with eq False "1.prems" show ?thesis by auto
    next
      case lt: True
      with True have nq: "input ! (i + 1) \<noteq> dquote"
        by (simp add: at_def)
      from "1.IH" [OF "1.prems" True lt]
      have A: "i + 1 < skip_quote input (i + 1)"
        and B: "skip_quote input (i + 1) \<le> length input"
        and C: "\<forall>k. i + 1 < k \<and> k < skip_quote input (i + 1) \<longrightarrow> input ! k \<noteq> dquote"
        and D: "skip_quote input (i + 1) < length input \<longrightarrow>
                 input ! skip_quote input (i + 1) = dquote"
        by blast+
      have "input ! k \<noteq> dquote" if "i < k" "k < skip_quote input (i + 1)" for k
      proof (cases "k = i + 1")
        case True
        with nq show ?thesis by simp
      next
        case False
        with that have "i + 1 < k" by simp
        with C that show ?thesis by blast
      qed
      with A B D show ?thesis
        unfolding eq by auto
    qed
  qed
qed

lemma take_drop_snoc:
  "start \<le> i \<Longrightarrow> i < length input \<Longrightarrow>
     take (Suc i - start) (drop start input) = take (i - start) (drop start input) @ [input ! i]"
  by (simp add: Suc_diff_le take_Suc_conv_app_nth)

lemma substr_ok:
  assumes "start \<le> i" "start \<le> length input"
  shows "substr input start (int i - int start) = Inr (take (i - start) (drop start input))"
  using assms by (simp add: substr_def nat_diff_distrib')

lemma skip_space_drop:
  "skip_space (drop i input) = drop (skip_one_space input i) input"
proof (cases "i < length input")
  case True
  then have "drop i input = input ! i # drop (Suc i) input"
    by (simp add: Cons_nth_drop_Suc)
  with True show ?thesis by (simp add: skip_one_space_def)
next
  case False
  then show ?thesis by (simp add: skip_one_space_def)
qed

lemma skip_one_space_cases:
  "skip_one_space input i = i \<or>
   (skip_one_space input i = i + 1 \<and> i < length input \<and> input ! i = CHR '' '')"
  by (simp add: skip_one_space_def)

lemma split_loop_end:
  "\<not> i < length input \<Longrightarrow> split_loop input i start bg out = Inr (start, bg, out)"
  by (subst split_loop.simps) simp

lemma split_loop_sep:
  assumes "i < length input" "input ! i = CHR ''|'' \<or> input ! i = CHR '';''" "start \<le> i"
  shows "split_loop input i start bg out =
         split_loop input (i + 1) (skip_one_space input (i + 1)) bg
           (out @ [take (i - start) (drop start input)])"
proof -
  have "substr input start (int i - int start) = Inr (take (i - start) (drop start input))"
    using assms by (intro substr_ok) simp_all
  moreover have "input ! i \<noteq> CHR ''&''"
    using assms(2) by auto
  ultimately show ?thesis
    using assms(1,2) by (subst split_loop.simps) simp
qed

lemma split_loop_quote:
  assumes "i < length input" "input ! i = dquote"
  shows "split_loop input i start bg out = split_loop input (skip_quote input i + 1) start bg out"
proof -
  have "input ! i \<noteq> CHR ''&''" "input ! i \<noteq> CHR ''|''" "input ! i \<noteq> CHR '';''"
    using assms(2) by (auto simp: dquote_def)
  then show ?thesis
    using assms by (subst split_loop.simps) simp
qed

lemma split_loop_plain:
  assumes "i < length input" "input ! i \<noteq> CHR ''|''" "input ! i \<noteq> CHR '';''"
    "input ! i \<noteq> dquote"
  shows "split_loop input i start bg out =
         split_loop input (i + 1) start (bg \<or> input ! i = CHR ''&'') out"
  using assms by (subst split_loop.simps) simp


lemma segments_spec_scan:
  assumes "i \<le> j" "j \<le> length input" "start \<le> i"
    and "\<forall>k. i \<le> k \<and> k < j \<longrightarrow> input ! k \<noteq> dquote"
  shows "segments_spec True (take (i - start) (drop start input)) (drop i input) =
         segments_spec True (take (j - start) (drop start input)) (drop j input)"
  using assms(1,2,4)
proof (induction j rule: dec_induct)
  case base
  show ?case by simp
next
  case (step n)
  then have n: "n < length input" "input ! n \<noteq> dquote" "start \<le> n"
    using assms(3) by auto
  have "segments_spec True (take (n - start) (drop start input)) (drop n input) =
        segments_spec True (take (n - start) (drop start input)) (input ! n # drop (Suc n) input)"
    using n by (simp add: Cons_nth_drop_Suc)
  also have "\<dots> = segments_spec True (take (Suc n - start) (drop start input)) (drop (Suc n) input)"
    using n by (simp add: take_drop_snoc)
  finally show ?case
    using step by simp
qed

lemma unquoted_amp_scan:
  assumes "i \<le> j" "j \<le> length input"
    and "\<forall>k. i \<le> k \<and> k < j \<longrightarrow> input ! k \<noteq> dquote"
  shows "unquoted_amp True (drop i input) = unquoted_amp True (drop j input)"
  using assms
proof (induction j rule: dec_induct)
  case base
  show ?case by simp
next
  case (step n)
  then have n: "n < length input" "input ! n \<noteq> dquote"
    by auto
  have "unquoted_amp True (drop n input) = unquoted_amp True (input ! n # drop (Suc n) input)"
    using n by (simp add: Cons_nth_drop_Suc)
  with n step show ?case by simp
qed

text \<open>
  One step of the scan at index \<open>i\<close>, where the text scanned and not yet pushed is
  \<open>input[start..i)\<close>.
\<close>

lemma segments_spec_sep_step:
  assumes "i < length input" "input ! i = CHR ''|'' \<or> input ! i = CHR '';''"
  shows "segments_spec False cur (drop i input) =
         cur # segments_spec False [] (drop (skip_one_space input (i + 1)) input)"
proof -
  have "drop i input = input ! i # drop (Suc i) input"
    using assms(1) by (simp add: Cons_nth_drop_Suc)
  then show ?thesis
    using assms(2) by (simp add: skip_space_drop)
qed

lemma unquoted_amp_sep_step:
  assumes "i < length input" "input ! i = CHR ''|'' \<or> input ! i = CHR '';''"
  shows "unquoted_amp False (drop i input) = unquoted_amp False (drop (i + 1) input)"
proof -
  have "drop i input = input ! i # drop (Suc i) input"
    using assms(1) by (simp add: Cons_nth_drop_Suc)
  then show ?thesis
    using assms(2) by (auto simp: dquote_def)
qed

lemma segments_spec_quote_step:
  assumes "i < length input" "input ! i = dquote" "start \<le> i"
  shows "segments_spec False (take (i - start) (drop start input)) (drop i input) =
         segments_spec False (take (skip_quote input i + 1 - start) (drop start input))
           (drop (skip_quote input i + 1) input)"
proof -
  let ?j = "skip_quote input i"
  from skip_quote_props [OF assms(1)]
  have j: "i < ?j" "?j \<le> length input"
    "\<forall>k. i < k \<and> k < ?j \<longrightarrow> input ! k \<noteq> dquote"
    "?j < length input \<longrightarrow> input ! ?j = dquote"
    by blast+
  have "drop i input = dquote # drop (Suc i) input"
    using assms(1,2) by (simp add: Cons_nth_drop_Suc [symmetric])
  then have "segments_spec False (take (i - start) (drop start input)) (drop i input) =
        segments_spec True (take (i - start) (drop start input) @ [dquote]) (drop (Suc i) input)"
    by (simp add: dquote_def)
  also have "\<dots> = segments_spec True (take (Suc i - start) (drop start input)) (drop (Suc i) input)"
    using assms by (simp add: take_drop_snoc)
  also have "\<dots> = segments_spec True (take (?j - start) (drop start input)) (drop ?j input)"
    using j assms(3) by (intro segments_spec_scan) auto
  also have "\<dots> = segments_spec False (take (?j + 1 - start) (drop start input)) (drop (?j + 1) input)"
  proof (cases "?j < length input")
    case True
    with j(4) have "drop ?j input = dquote # drop (Suc ?j) input"
      by (simp add: Cons_nth_drop_Suc [symmetric])
    moreover have "take (Suc ?j - start) (drop start input) =
        take (?j - start) (drop start input) @ [dquote]"
      using True j assms(3) by (simp add: take_drop_snoc)
    ultimately show ?thesis by simp
  next
    case False
    with j(2) have "?j = length input" by simp
    then show ?thesis by simp
  qed
  finally show ?thesis .
qed

lemma unquoted_amp_quote_step:
  assumes "i < length input" "input ! i = dquote"
  shows "unquoted_amp False (drop i input) =
         unquoted_amp False (drop (skip_quote input i + 1) input)"
proof -
  let ?j = "skip_quote input i"
  from skip_quote_props [OF assms(1)]
  have j: "i < ?j" "?j \<le> length input"
    "\<forall>k. i < k \<and> k < ?j \<longrightarrow> input ! k \<noteq> dquote"
    "?j < length input \<longrightarrow> input ! ?j = dquote"
    by blast+
  have "drop i input = dquote # drop (Suc i) input"
    using assms(1,2) by (simp add: Cons_nth_drop_Suc [symmetric])
  then have "unquoted_amp False (drop i input) = unquoted_amp True (drop (Suc i) input)"
    by (simp add: dquote_def)
  also have "\<dots> = unquoted_amp True (drop ?j input)"
    using j by (intro unquoted_amp_scan) auto
  also have "\<dots> = unquoted_amp False (drop (?j + 1) input)"
  proof (cases "?j < length input")
    case True
    with j(4) have "drop ?j input = dquote # drop (Suc ?j) input"
      by (simp add: Cons_nth_drop_Suc [symmetric])
    then show ?thesis by simp
  next
    case False
    with j(2) have "?j = length input" by simp
    then show ?thesis by simp
  qed
  finally show ?thesis .
qed

lemma segments_spec_plain_step:
  assumes "i < length input" "input ! i \<noteq> CHR ''|''" "input ! i \<noteq> CHR '';''"
    "input ! i \<noteq> dquote" "start \<le> i"
  shows "segments_spec False (take (i - start) (drop start input)) (drop i input) =
         segments_spec False (take (i + 1 - start) (drop start input)) (drop (i + 1) input)"
proof -
  have "drop i input = input ! i # drop (Suc i) input"
    using assms(1) by (simp add: Cons_nth_drop_Suc)
  then show ?thesis
    using assms by (simp add: take_drop_snoc)
qed

lemma unquoted_amp_plain_step:
  assumes "i < length input" "input ! i \<noteq> dquote"
  shows "unquoted_amp False (drop i input) =
         (input ! i = CHR ''&'' \<or> unquoted_amp False (drop (i + 1) input))"
proof -
  have "drop i input = input ! i # drop (Suc i) input"
    using assms(1) by (simp add: Cons_nth_drop_Suc)
  then show ?thesis
    using assms by simp
qed


text \<open>
  The invariant of the loop of \<open>splitByPipe\<close>: from index \<open>i\<close> with \<open>start\<close> at most
  \<open>i\<close>, or one behind it on a skipped space, the loop never throws, its flag is the flag
  so far or a \<open>&\<close> outside quotes in the rest of the line, and the segments it has pushed
  at its end, with the text behind the final \<open>start\<close>, are the segments pushed so far
  followed by the segments of the rest.
\<close>

lemma split_loop_segments:
  assumes "start \<le> i \<or> (start = i + 1 \<and> i < length input \<and> input ! i = CHR '' '')"
  shows "\<exists>st out'. split_loop input i start bg out =
            Inr (st, bg \<or> unquoted_amp False (drop i input), out') \<and>
          out' @ [drop st input] =
            out @ segments_spec False (take (i - start) (drop start input)) (drop (max i start) input)"
  using assms
proof (induction "length input - i" arbitrary: i start bg out rule: less_induct)
  case less
  let ?cur = "take (i - start) (drop start input)"
  show ?case
  proof (cases "i < length input")
    case False
    with less.prems have "start \<le> i" by auto
    with False have "split_loop input i start bg out = Inr (start, bg, out)"
      and "drop i input = []" and "?cur = drop start input" and "max i start = i"
      by (simp_all add: split_loop_end)
    then show ?thesis by simp
  next
    case lt: True
    show ?thesis
    proof (cases "input ! i = CHR ''|'' \<or> input ! i = CHR '';''")
      case sep: True
      with less.prems have le: "start \<le> i" by auto
      let ?s' = "skip_one_space input (i + 1)"
      have pre: "?s' \<le> i + 1 \<or> (?s' = i + 1 + 1 \<and> i + 1 < length input \<and> input ! (i + 1) = CHR '' '')"
        using skip_one_space_cases [of input "i + 1"] by auto
      have "length input - (i + 1) < length input - i"
        using lt by simp
      from less.hyps [OF this pre, of bg "out @ [?cur]"]
      obtain st out' where
        run: "split_loop input (i + 1) ?s' bg (out @ [?cur]) =
                Inr (st, bg \<or> unquoted_amp False (drop (i + 1) input), out')"
        and res: "out' @ [drop st input] =
                (out @ [?cur]) @ segments_spec False (take (i + 1 - ?s') (drop ?s' input)) (drop (max (i + 1) ?s') input)"
        by blast
      have s': "take (i + 1 - ?s') (drop ?s' input) = []" "max (i + 1) ?s' = ?s'"
        using skip_one_space_cases [of input "i + 1"] by auto
      have "max i start = i"
        using le by simp
      then have "segments_spec False ?cur (drop (max i start) input) = ?cur # segments_spec False [] (drop ?s' input)"
        using segments_spec_sep_step [OF lt sep] by simp
      with res s' have "out' @ [drop st input] = out @ segments_spec False ?cur (drop (max i start) input)"
        by simp
      moreover have "split_loop input i start bg out =
          Inr (st, bg \<or> unquoted_amp False (drop i input), out')"
        using split_loop_sep [OF lt sep le] run unquoted_amp_sep_step [OF lt sep] by simp
      ultimately show ?thesis by blast
    next
      case nsep: False
      show ?thesis
      proof (cases "input ! i = dquote")
        case q: True
        with less.prems have le: "start \<le> i" by (auto simp: dquote_def)
        let ?j = "skip_quote input i"
        from skip_quote_props [OF lt] have j: "i < ?j" "?j \<le> length input"
          by blast+
        have pre: "start \<le> ?j + 1 \<or> (start = ?j + 1 + 1 \<and> ?j + 1 < length input \<and> input ! (?j + 1) = CHR '' '')"
          using le j(1) by simp
        have "length input - (?j + 1) < length input - i"
          using lt j by simp
        from less.hyps [OF this pre, of bg out]
        obtain st out' where
          run: "split_loop input (?j + 1) start bg out =
                  Inr (st, bg \<or> unquoted_amp False (drop (?j + 1) input), out')"
          and res: "out' @ [drop st input] =
                  out @ segments_spec False (take (?j + 1 - start) (drop start input)) (drop (max (?j + 1) start) input)"
          by blast
        have "max i start = i" "max (?j + 1) start = ?j + 1"
          using le j(1) by simp_all
        with res segments_spec_quote_step [OF lt q le]
        have "out' @ [drop st input] = out @ segments_spec False ?cur (drop (max i start) input)"
          by simp
        moreover have "split_loop input i start bg out =
            Inr (st, bg \<or> unquoted_amp False (drop i input), out')"
          using split_loop_quote [OF lt q] run unquoted_amp_quote_step [OF lt q] by simp
        ultimately show ?thesis by blast
      next
        case nq: False
        from nsep have ns: "input ! i \<noteq> CHR ''|''" "input ! i \<noteq> CHR '';''"
          by simp_all
        have pre: "start \<le> i + 1 \<or> (start = i + 1 + 1 \<and> i + 1 < length input \<and> input ! (i + 1) = CHR '' '')"
          using less.prems by auto
        have "length input - (i + 1) < length input - i"
          using lt by simp
        from less.hyps [OF this pre, of "bg \<or> input ! i = CHR ''&''" out]
        obtain st out' where
          run: "split_loop input (i + 1) start (bg \<or> input ! i = CHR ''&'') out =
                  Inr (st, (bg \<or> input ! i = CHR ''&'') \<or> unquoted_amp False (drop (i + 1) input), out')"
          and res: "out' @ [drop st input] =
                  out @ segments_spec False (take (i + 1 - start) (drop start input)) (drop (max (i + 1) start) input)"
          by blast
        have S: "segments_spec False ?cur (drop (max i start) input) =
              segments_spec False (take (i + 1 - start) (drop start input)) (drop (max (i + 1) start) input)"
        proof (cases "start \<le> i")
          case True
          then have "max i start = i" "max (i + 1) start = i + 1"
            by simp_all
          with segments_spec_plain_step [OF lt ns nq True] show ?thesis
            by simp
        next
          case False
          with less.prems have "start = i + 1" by auto
          then show ?thesis by simp
        qed
        have "split_loop input i start bg out =
            Inr (st, bg \<or> unquoted_amp False (drop i input), out')"
          using split_loop_plain [OF lt ns nq] run unquoted_amp_plain_step [OF lt nq] by simp
        with res S show ?thesis by simp
      qed
    qed
  qed
qed

text \<open>\<open>splitByPipe\<close> never throws and returns \<open>split_spec\<close>, for every line.\<close>

lemma splitByPipe_refines: "splitByPipe input = Inr (split_spec input)"
proof -
  from split_loop_segments [of 0 0 input False "[]"]
  obtain st out' where
    run: "split_loop input 0 0 False [] = Inr (st, unquoted_amp False input, out')"
    and res: "out' @ [drop st input] = segments_spec False [] input"
    by auto
  let ?S = "segments_spec False [] input"
  from res have bl: "butlast ?S = out'" and la: "last ?S = drop st input"
    by (metis butlast_snoc, metis last_snoc)
  have st0: "st = 0" if "input = []"
    using run that by (simp add: split_loop_end)
  have cond: "st < size_minus_one (length input) \<longleftrightarrow> input = [] \<or> 2 \<le> length (last ?S)"
  proof (cases "input = []")
    case True
    with st0 show ?thesis by (simp add: size_minus_one_def)
  next
    case False
    then show ?thesis
      by (auto simp: size_minus_one_def la)
  qed
  show ?thesis
  proof (cases "st < size_minus_one (length input)")
    case True
    then have "st \<le> length input"
      using cond st0 by (auto simp: la)
    with True cond run bl la show ?thesis
      by (simp add: splitByPipe_def split_spec_def substr_from_def Let_def)
  next
    case False
    with cond run bl la show ?thesis
      by (simp add: splitByPipe_def split_spec_def Let_def)
  qed
qed

subsection \<open>\<open>tokenize\<close>\<close>

lemma find_quote_props:
  "i \<le> find_quote input i \<and> find_quote input i \<le> max i (length input) \<and>
   (\<forall>k. i \<le> k \<and> k < find_quote input i \<longrightarrow> input ! k \<noteq> dquote) \<and>
   (find_quote input i < length input \<longrightarrow> input ! find_quote input i = dquote)"
proof (induction input i rule: find_quote.induct)
  case (1 input i)
  show ?case
  proof (cases "i < length input \<and> input ! i \<noteq> dquote")
    case False
    then have "find_quote input i = i"
      by (subst find_quote.simps) (simp only: if_False)
    with False show ?thesis by auto
  next
    case True
    then have eq: "find_quote input i = find_quote input (i + 1)"
      by (subst find_quote.simps) simp
    from "1.IH" [OF True]
    have A: "i + 1 \<le> find_quote input (i + 1)"
      and B: "find_quote input (i + 1) \<le> max (i + 1) (length input)"
      and C: "\<forall>k. i + 1 \<le> k \<and> k < find_quote input (i + 1) \<longrightarrow> input ! k \<noteq> dquote"
      and D: "find_quote input (i + 1) < length input \<longrightarrow>
               input ! find_quote input (i + 1) = dquote"
      by blast+
    have "input ! k \<noteq> dquote" if "i \<le> k" "k < find_quote input (i + 1)" for k
    proof (cases "k = i")
      case True
      with \<open>i < length input \<and> input ! i \<noteq> dquote\<close> show ?thesis by simp
    next
      case False
      with that have "i + 1 \<le> k" by simp
      with C that show ?thesis by blast
    qed
    with A B D True show ?thesis
      unfolding eq by auto
  qed
qed

lemma takeWhile_find_quote:
  assumes "i \<le> length input"
  shows "takeWhile (\<lambda>x. x \<noteq> dquote) (drop i input) =
         take (find_quote input i - i) (drop i input)"
proof -
  let ?j = "find_quote input i"
  from find_quote_props [of i input]
  have j: "i \<le> ?j" "?j \<le> max i (length input)"
    "\<forall>k. i \<le> k \<and> k < ?j \<longrightarrow> input ! k \<noteq> dquote"
    "?j < length input \<longrightarrow> input ! ?j = dquote"
    by blast+
  show ?thesis
  proof (rule takeWhile_eq_take_P_nth)
    fix k
    assume "k < ?j - i" "k < length (drop i input)"
    then show "drop i input ! k \<noteq> dquote"
      using j(3) assms by simp
  next
    assume "?j - i < length (drop i input)"
    then have "?j < length input"
      using j(1) by simp
    with j(1,4) assms show "\<not> drop i input ! (?j - i) \<noteq> dquote"
      by simp
  qed
qed

lemma dropWhile_find_quote:
  assumes "i \<le> length input"
  shows "dropWhile (\<lambda>x. x \<noteq> dquote) (drop i input) = drop (find_quote input i) input"
proof -
  from find_quote_props [of i input]
  have j: "i \<le> find_quote input i" "find_quote input i \<le> max i (length input)"
    by blast+
  with assms have "find_quote input i \<le> length input"
    by simp
  then have "length (take (find_quote input i - i) (drop i input)) = find_quote input i - i"
    by simp
  then show ?thesis
    using j(1) by (simp add: dropWhile_eq_drop takeWhile_find_quote [OF assms])
qed


lemma tokenize_loop_end:
  "\<not> i < length input \<Longrightarrow> tokenize_loop input i start tokens = Inr (start, tokens)"
  by (subst tokenize_loop.simps) simp

lemma tokenize_loop_space:
  assumes "i < length input" "input ! i = CHR '' ''" "start \<le> i"
  shows "tokenize_loop input i start tokens =
         tokenize_loop input (i + 1) (i + 1) (tokens @ [take (i - start) (drop start input)])"
proof -
  have "substr input start (int i - int start) = Inr (take (i - start) (drop start input))"
    using assms by (intro substr_ok) simp_all
  then show ?thesis
    using assms(1,2) by (subst tokenize_loop.simps) simp
qed

lemma tokenize_loop_quote:
  assumes "i < length input" "input ! i = dquote"
  shows "tokenize_loop input i start tokens =
         tokenize_loop input (find_quote input (i + 1) + 2)
           (skip_one_space input (find_quote input (i + 1) + 1))
           (tokens @ [takeWhile (\<lambda>x. x \<noteq> dquote) (drop (i + 1) input)])"
proof -
  let ?j = "find_quote input (i + 1)"
  from find_quote_props [of "i + 1" input] have "i + 1 \<le> ?j"
    by blast
  then have "substr input (i + 1) (int ?j - int (i + 1)) =
      Inr (take (?j - (i + 1)) (drop (i + 1) input))"
    using assms(1) by (intro substr_ok) simp_all
  moreover have "takeWhile (\<lambda>x. x \<noteq> dquote) (drop (i + 1) input) =
      take (?j - (i + 1)) (drop (i + 1) input)"
    using assms(1) by (intro takeWhile_find_quote) simp
  moreover have "input ! i \<noteq> CHR '' ''"
    using assms(2) by (simp add: dquote_def)
  ultimately show ?thesis
    using assms by (subst tokenize_loop.simps) (simp add: Let_def)
qed

lemma tokenize_loop_plain:
  assumes "i < length input" "input ! i \<noteq> CHR '' ''" "input ! i \<noteq> dquote"
  shows "tokenize_loop input i start tokens = tokenize_loop input (i + 1) start tokens"
  using assms by (subst tokenize_loop.simps) simp

lemma tokens_spec_space_step:
  assumes "i < length input" "input ! i = CHR '' ''"
  shows "tokens_spec cur (drop i input) = cur # tokens_spec [] (drop (i + 1) input)"
proof -
  have "drop i input = input ! i # drop (Suc i) input"
    using assms(1) by (simp add: Cons_nth_drop_Suc)
  then show ?thesis
    using assms(2) by simp
qed

lemma tokens_spec_plain_step:
  assumes "i < length input" "input ! i \<noteq> CHR '' ''" "input ! i \<noteq> dquote" "start \<le> i"
  shows "tokens_spec (take (i - start) (drop start input)) (drop i input) =
         tokens_spec (take (i + 1 - start) (drop start input)) (drop (i + 1) input)"
proof -
  have "drop i input = input ! i # drop (Suc i) input"
    using assms(1) by (simp add: Cons_nth_drop_Suc)
  then show ?thesis
    using assms by (simp add: take_drop_snoc)
qed

lemma tokens_spec_quote_step:
  assumes "i < length input" "input ! i = dquote"
  shows "tokens_spec cur (drop i input) =
         takeWhile (\<lambda>x. x \<noteq> dquote) (drop (i + 1) input) #
           tokens_spec (take (find_quote input (i + 1) + 2 - skip_one_space input (find_quote input (i + 1) + 1))
                  (drop (skip_one_space input (find_quote input (i + 1) + 1)) input))
             (drop (find_quote input (i + 1) + 2) input)"
proof -
  let ?j = "find_quote input (i + 1)"
  let ?s = "skip_one_space input (?j + 1)"
  have di: "drop i input = dquote # drop (Suc i) input"
    using assms by (simp add: Cons_nth_drop_Suc [symmetric])
  have dw: "drop 1 (dropWhile (\<lambda>x. x \<noteq> dquote) (drop (Suc i) input)) = drop (?j + 1) input"
    using assms(1) dropWhile_find_quote [of "i + 1" input] by simp
  have after: "(case drop (?j + 1) input of
           [] \<Rightarrow> [[]]
         | x # r \<Rightarrow> if x = CHR '' '' then tokens_spec [] r else tokens_spec [x] r) =
        tokens_spec (take (?j + 2 - ?s) (drop ?s input)) (drop (?j + 2) input)"
  proof (cases "?j + 1 < length input")
    case False
    then show ?thesis
      by (simp add: skip_one_space_def)
  next
    case True
    then have d: "drop (?j + 1) input = input ! (?j + 1) # drop (?j + 2) input"
      by (simp add: Cons_nth_drop_Suc)
    show ?thesis
    proof (cases "input ! (?j + 1) = CHR '' ''")
      case sp: True
      with True have "?s = ?j + 2"
        by (simp add: skip_one_space_def)
      with sp d show ?thesis by simp
    next
      case nsp: False
      then have "?s = ?j + 1"
        by (simp add: skip_one_space_def)
      moreover have "take 1 (drop (?j + 1) input) = [input ! (?j + 1)]"
        using d by simp
      ultimately show ?thesis
        using nsp d by simp
    qed
  qed
  have "dquote \<noteq> CHR '' ''"
    by (simp add: dquote_def)
  then show ?thesis
    using dw after by (simp add: di)
qed

text \<open>
  The invariant of the loop of \<open>tokenize\<close>, and the function as a whole: it never throws
  and returns \<open>tokenize_spec\<close>, for every segment.
\<close>

lemma tokenize_loop_tokens:
  assumes "start \<le> i"
  shows "\<exists>st out'. tokenize_loop input i start tokens = Inr (st, out') \<and>
          out' @ [drop st input] =
            tokens @ tokens_spec (take (i - start) (drop start input)) (drop i input)"
  using assms
proof (induction "length input - i" arbitrary: i start tokens rule: less_induct)
  case less
  let ?cur = "take (i - start) (drop start input)"
  show ?case
  proof (cases "i < length input")
    case False
    then have "tokenize_loop input i start tokens = Inr (start, tokens)"
      and "drop i input = []" and "?cur = drop start input"
      by (simp_all add: tokenize_loop_end)
    then show ?thesis by simp
  next
    case lt: True
    show ?thesis
    proof (cases "input ! i = CHR '' ''")
      case sp: True
      have "length input - (i + 1) < length input - i"
        using lt by simp
      from less.hyps [OF this, of "i + 1" "tokens @ [?cur]"]
      obtain st out' where
        run: "tokenize_loop input (i + 1) (i + 1) (tokens @ [?cur]) = Inr (st, out')"
        and res: "out' @ [drop st input] = (tokens @ [?cur]) @ tokens_spec [] (drop (i + 1) input)"
        by auto
      from res tokens_spec_space_step [OF lt sp, of ?cur]
      have "out' @ [drop st input] = tokens @ tokens_spec ?cur (drop i input)"
        by simp
      with run tokenize_loop_space [OF lt sp less.prems] show ?thesis
        by simp
    next
      case nsp: False
      show ?thesis
      proof (cases "input ! i = dquote")
        case q: True
        let ?j = "find_quote input (i + 1)"
        let ?s = "skip_one_space input (?j + 1)"
        let ?t = "takeWhile (\<lambda>x. x \<noteq> dquote) (drop (i + 1) input)"
        from find_quote_props [of "i + 1" input] have j: "i + 1 \<le> ?j"
          by blast
        have s: "?s \<le> ?j + 2"
          by (simp add: skip_one_space_def)
        have "length input - (?j + 2) < length input - i"
          using lt j by simp
        from less.hyps [OF this s, of "tokens @ [?t]"]
        obtain st out' where
          run: "tokenize_loop input (?j + 2) ?s (tokens @ [?t]) = Inr (st, out')"
          and res: "out' @ [drop st input] =
              (tokens @ [?t]) @ tokens_spec (take (?j + 2 - ?s) (drop ?s input)) (drop (?j + 2) input)"
          by blast
        from res tokens_spec_quote_step [OF lt q, of ?cur]
        have "out' @ [drop st input] = tokens @ tokens_spec ?cur (drop i input)"
          by simp
        with run tokenize_loop_quote [OF lt q] show ?thesis
          by simp
      next
        case nq: False
        have "length input - (i + 1) < length input - i"
          using lt by simp
        moreover have "start \<le> i + 1"
          using less.prems by simp
        ultimately obtain st out' where
          run: "tokenize_loop input (i + 1) start tokens = Inr (st, out')"
          and res: "out' @ [drop st input] =
              tokens @ tokens_spec (take (i + 1 - start) (drop start input)) (drop (i + 1) input)"
          using less.hyps [of "i + 1" start tokens] by blast
        from res tokens_spec_plain_step [OF lt nsp nq less.prems]
        have "out' @ [drop st input] = tokens @ tokens_spec ?cur (drop i input)"
          by simp
        with run tokenize_loop_plain [OF lt nsp nq] show ?thesis
          by simp
      qed
    qed
  qed
qed

lemma tokenize_refines: "tokenize input = Inr (tokenize_spec input)"
proof -
  from tokenize_loop_tokens [of 0 0 input "[]"]
  obtain st out' where
    run: "tokenize_loop input 0 0 [] = Inr (st, out')"
    and res: "out' @ [drop st input] = tokens_spec [] input"
    by auto
  let ?T = "tokens_spec [] input"
  from res have bl: "butlast ?T = out'" and la: "last ?T = drop st input"
    by (metis butlast_snoc, metis last_snoc)
  have st0: "st = 0" if "input = []"
    using run that by (simp add: tokenize_loop_end)
  have cond: "st < size_minus_one (length input) \<longleftrightarrow> input = [] \<or> 2 \<le> length (last ?T)"
  proof (cases "input = []")
    case True
    with st0 show ?thesis by (simp add: size_minus_one_def)
  next
    case False
    then show ?thesis
      by (auto simp: size_minus_one_def la)
  qed
  show ?thesis
  proof (cases "st < size_minus_one (length input)")
    case True
    then have "st \<le> length input"
      using cond st0 by (auto simp: la)
    with True cond run bl la show ?thesis
      by (simp add: tokenize_def tokenize_spec_def substr_from_def Let_def)
  next
    case False
    with cond run bl la show ?thesis
      by (simp add: tokenize_def tokenize_spec_def Let_def)
  qed
qed

subsection \<open>Redirection\<close>

lemma at_0_conv: "(at t 0 = CHR ''>'') \<longleftrightarrow> (t \<noteq> [] \<and> hd t = CHR ''>'')"
  by (cases t) (simp_all add: at_def)

lemma butlast2_take: "butlast (butlast xs) = take (length xs - 2) xs"
  by (simp add: butlast_conv_take numeral_2_eq_2)

lemma run_cmd_tokens_resolve:
  "run_cmd_tokens tokens =
     redirect_calls (snd (resolve_spec tokens)) @ [Execvp (fst (resolve_spec tokens))]"
proof (cases "1 < length tokens")
  case False
  then show ?thesis
    by (simp add: run_cmd_tokens_def resolve_spec_def Let_def)
next
  case True
  let ?t = "tokens ! (length tokens - 2)"
  have args: "take (nat (int (length tokens) + 1 - 2 - 1)) tokens = butlast (butlast tokens)"
    using True by (simp add: butlast2_take nat_diff_distrib')
  consider (app) "?t = ''>>''" | (trunc) "?t \<noteq> ''>>''" "at ?t 0 = CHR ''>''"
    | (inp) "?t = ''<''" | (none) "?t \<noteq> ''<''" "at ?t 0 \<noteq> CHR ''>''"
    by blast
  then show ?thesis
  proof cases
    case app
    then have "at ?t 0 = CHR ''>''" "?t \<noteq> ''<''"
      by (simp_all add: at_def)
    with app True args show ?thesis
      by (simp add: run_cmd_tokens_def resolve_spec_def Let_def)
  next
    case trunc
    then have "?t \<noteq> ''<''" "?t \<noteq> [] \<and> hd ?t = CHR ''>''"
      by (auto simp: at_0_conv)
    with trunc True args show ?thesis
      by (simp add: run_cmd_tokens_def resolve_spec_def Let_def)
  next
    case inp
    then have "at ?t 0 \<noteq> CHR ''>''" "?t \<noteq> ''>>''" "\<not> (?t \<noteq> [] \<and> hd ?t = CHR ''>'')"
      by (simp_all add: at_def)
    with inp True args show ?thesis
      by (simp add: run_cmd_tokens_def resolve_spec_def Let_def)
  next
    case none
    then have "\<not> (?t \<noteq> [] \<and> hd ?t = CHR ''>'')"
      by (simp add: at_0_conv)
    then have "?t \<noteq> ''>>''"
      by auto
    note \<open>\<not> (?t \<noteq> [] \<and> hd ?t = CHR ''>'')\<close> this
    with none True show ?thesis
      by (simp add: run_cmd_tokens_def resolve_spec_def Let_def)
  qed
qed

lemma resolve_spec_redirect:
  "resolve_spec (args @ [''>'', path]) = (args, OutputTruncate path)"
  "resolve_spec (args @ [''>>'', path]) = (args, OutputAppend path)"
  "resolve_spec (args @ [''<'', path]) = (args, Input path)"
  by (simp_all add: resolve_spec_def nth_append butlast_append)

subsection \<open>Facts about the functions on character lists\<close>

lemma segments_spec_nonempty: "segments_spec q cur s \<noteq> []"
  by (induction q cur s rule: segments_spec.induct) auto

lemma tokens_spec_nonempty: "tokens_spec cur s \<noteq> []"
  by (induction cur s rule: tokens_spec.induct) auto

lemma segments_spec_no_sep:
  "CHR ''|'' \<notin> set s \<Longrightarrow> CHR '';'' \<notin> set s \<Longrightarrow> segments_spec q cur s = [cur @ s]"
  by (induction q cur s rule: segments_spec.induct) auto

lemma tokens_spec_spaces:
  "tokens_spec cur (replicate n (CHR '' '')) = cur # replicate n []"
  by (induction n arbitrary: cur) auto

lemma tokenize_spaces:
  "tokenize (replicate (Suc n) (CHR '' '')) = Inr (replicate (Suc n) [])"
proof -
  let ?s = "replicate (Suc n) (CHR '' '')"
  have "tokens_spec [] ?s = [] # replicate (Suc n) []"
    by (rule tokens_spec_spaces)
  also have "\<dots> = replicate (Suc n) [] @ [[]]"
    by (simp add: replicate_append_same)
  finally have T: "tokens_spec [] ?s = replicate (Suc n) [] @ [[]]" .
  have "tokenize ?s = Inr (tokenize_spec ?s)"
    by (rule tokenize_refines)
  also have "tokenize_spec ?s = replicate (Suc n) []"
    unfolding tokenize_spec_def Let_def T by simp
  finally show ?thesis .
qed

lemma tokens_spec_append_space:
  assumes "dquote \<notin> set pre"
  shows "tokens_spec cur (pre @ CHR '' '' # rest) =
         butlast (tokens_spec cur (pre @ [CHR '' ''])) @ tokens_spec [] rest"
  using assms
proof (induction pre arbitrary: cur)
  case Nil
  show ?case by simp
next
  case (Cons c pre)
  then show ?case
    by (auto simp: tokens_spec_nonempty)
qed

lemma tokenize_one_char_after_space:
  assumes "dquote \<notin> set pre" "c \<noteq> CHR '' ''" "c \<noteq> dquote"
  shows "tokenize (pre @ [CHR '' '', c]) = tokenize (pre @ [CHR '' ''])"
proof -
  let ?B = "butlast (tokens_spec [] (pre @ [CHR '' '']))"
  have "tokens_spec [] (pre @ [CHR '' '', c]) = ?B @ tokens_spec [] [c]"
    using tokens_spec_append_space [OF assms(1), of "[]" "[c]"] by simp
  then have one: "tokens_spec [] (pre @ [CHR '' '', c]) = ?B @ [[c]]"
    using assms(2,3) by simp
  have "tokens_spec [] (pre @ [CHR '' '']) = ?B @ tokens_spec [] []"
    using tokens_spec_append_space [OF assms(1), of "[]" "[]"] by simp
  then have zero: "tokens_spec [] (pre @ [CHR '' '']) = ?B @ [[]]"
    by simp
  have "tokenize (pre @ [CHR '' '', c]) = Inr ?B"
    unfolding tokenize_refines tokenize_spec_def Let_def one by simp
  moreover have "tokenize (pre @ [CHR '' '']) = Inr ?B"
    unfolding tokenize_refines tokenize_spec_def Let_def
    by (subst (1 2 3) zero) simp
  ultimately show ?thesis by simp
qed


lemma skip_space_append_sep:
  "sep \<noteq> CHR '' '' \<Longrightarrow> skip_space (p @ sep # rest) = skip_space p @ sep # rest"
  by (cases p) auto

lemma set_skip_space: "set (skip_space p) \<subseteq> set p"
  by (cases p) auto

lemma segments_spec_append_sep:
  assumes "dquote \<notin> set pre" "sep = CHR ''|'' \<or> sep = CHR '';''"
  shows "segments_spec False cur (pre @ sep # rest) =
         butlast (segments_spec False cur (pre @ [sep])) @ segments_spec False [] (skip_space rest)"
  using assms(1)
proof (induction pre arbitrary: cur rule: length_induct)
  case (1 pre)
  from assms(2) have sp: "sep \<noteq> CHR '' ''"
    by auto
  show ?case
  proof (cases pre)
    case Nil
    with assms(2) show ?thesis by auto
  next
    case (Cons c p)
    with "1.prems" have nq: "c \<noteq> dquote" "dquote \<notin> set p"
      by auto
    show ?thesis
    proof (cases "c = CHR ''|'' \<or> c = CHR '';''")
      case True
      have "length (skip_space p) < length pre"
        using length_skip_space [of p] Cons by simp
      moreover have "dquote \<notin> set (skip_space p)"
        using nq(2) set_skip_space [of p] by auto
      ultimately have IH: "segments_spec False [] (skip_space p @ sep # rest) =
          butlast (segments_spec False [] (skip_space p @ [sep])) @
            segments_spec False [] (skip_space rest)"
        using "1.IH" by blast
      have "segments_spec False cur (pre @ sep # rest) =
          cur # segments_spec False [] (skip_space p @ sep # rest)"
        using True Cons sp by (auto simp: skip_space_append_sep)
      moreover have "segments_spec False cur (pre @ [sep]) =
          cur # segments_spec False [] (skip_space p @ [sep])"
        using True Cons sp by (auto simp: skip_space_append_sep)
      ultimately show ?thesis
        using IH by (simp add: segments_spec_nonempty)
    next
      case False
      have "length p < length pre"
        using Cons by simp
      with "1.IH" nq(2) have IH: "segments_spec False (cur @ [c]) (p @ sep # rest) =
          butlast (segments_spec False (cur @ [c]) (p @ [sep])) @
            segments_spec False [] (skip_space rest)"
        by blast
      with False nq(1) Cons show ?thesis
        by simp
    qed
  qed
qed

lemma unquoted_amp_append:
  "dquote \<notin> set pre \<Longrightarrow>
     unquoted_amp False (pre @ rest) = (CHR ''&'' \<in> set pre \<or> unquoted_amp False rest)"
  by (induction pre) auto

lemma splitByPipe_one_char_after_sep:
  assumes "dquote \<notin> set pre" "sep = CHR ''|'' \<or> sep = CHR '';''"
    and "c \<noteq> CHR ''|''" "c \<noteq> CHR '';''" "c \<noteq> dquote" "c \<noteq> CHR ''&''"
  shows "splitByPipe (pre @ [sep, c]) = splitByPipe (pre @ [sep])"
proof -
  let ?B = "butlast (segments_spec False [] (pre @ [sep]))"
  let ?m = "if unquoted_amp False (pre @ [sep]) then ''&'' else ''-''"
  have "segments_spec False [] (pre @ [sep, c]) = ?B @ segments_spec False [] (skip_space [c])"
    using segments_spec_append_sep [OF assms(1,2), of "[]" "[c]"] by simp
  then have one: "segments_spec False [] (pre @ [sep, c]) =
      ?B @ [if c = CHR '' '' then [] else [c]]"
    using assms(3,4) by simp
  have "segments_spec False [] (pre @ [sep]) = ?B @ segments_spec False [] (skip_space [])"
    using segments_spec_append_sep [OF assms(1,2), of "[]" "[]"] by simp
  then have zero: "segments_spec False [] (pre @ [sep]) = ?B @ [[]]"
    by simp
  have amp: "unquoted_amp False (pre @ [sep, c]) = unquoted_amp False (pre @ [sep])"
  proof -
    have "sep \<noteq> dquote" "sep \<noteq> CHR ''&''"
      using assms(2) by (auto simp: dquote_def)
    then have "unquoted_amp False [sep, c] = False" "unquoted_amp False [sep] = False"
      using assms(5,6) by simp_all
    then show ?thesis
      using unquoted_amp_append [OF assms(1), of "[sep, c]"]
        unquoted_amp_append [OF assms(1), of "[sep]"] by simp
  qed
  have "split_spec (pre @ [sep, c]) = ?B @ [?m]"
    unfolding split_spec_def Let_def one amp by simp
  moreover have "split_spec (pre @ [sep]) = ?B @ [?m]"
    unfolding split_spec_def Let_def
    by (subst (1 2 3) zero) simp
  ultimately show ?thesis
    by (simp add: splitByPipe_refines)
qed

lemma segments_spec_then_sep:
  assumes "dquote \<notin> set c1" "CHR ''|'' \<notin> set c1" "CHR '';'' \<notin> set c1"
    and "sep = CHR ''|'' \<or> sep = CHR '';''"
  shows "segments_spec False cur (c1 @ [sep]) = [cur @ c1, []]"
  using assms(1-3)
proof (induction c1 arbitrary: cur)
  case Nil
  with assms(4) show ?case by auto
next
  case (Cons c cs)
  then have "c \<noteq> dquote" "c \<noteq> CHR ''|''" "c \<noteq> CHR '';''"
    and "segments_spec False (cur @ [c]) (cs @ [sep]) = [(cur @ [c]) @ cs, []]"
    by auto
  then show ?case by simp
qed

lemma segments_spec_two:
  assumes "dquote \<notin> set c1" "CHR ''|'' \<notin> set c1" "CHR '';'' \<notin> set c1"
    and "CHR ''|'' \<notin> set c2" "CHR '';'' \<notin> set c2"
    and "sep = CHR ''|'' \<or> sep = CHR '';''"
  shows "segments_spec False [] (c1 @ sep # c2) = [c1, skip_space c2]"
proof -
  have "CHR ''|'' \<notin> set (skip_space c2)" "CHR '';'' \<notin> set (skip_space c2)"
    using assms(4,5) set_skip_space [of c2] by auto
  then have "segments_spec False [] (skip_space c2) = [skip_space c2]"
    by (simp add: segments_spec_no_sep)
  moreover have "segments_spec False [] (c1 @ [sep]) = [c1, []]"
    using segments_spec_then_sep [OF assms(1-3) assms(6), of "[]"] by simp
  ultimately show ?thesis
    using segments_spec_append_sep [OF assms(1) assms(6), of "[]" c2] by simp
qed


text \<open>
  A space or a double quote always pushes a token, so the scan of an input that holds one
  of them gives at least two entries, the pushed token and the remainder, and the token list
  is not empty.
\<close>

lemma tokens_spec_two_or_more:
  "CHR '' '' \<in> set s \<or> dquote \<in> set s \<Longrightarrow> 2 \<le> length (tokens_spec cur s)"
proof (induction cur s rule: tokens_spec.induct)
  case (1 cur)
  then show ?case by simp
next
  case (2 cur c cs)
  show ?case
  proof (cases "c = CHR '' ''")
    case True
    then show ?thesis
      using tokens_spec_nonempty [of "[]" cs] by (cases "tokens_spec [] cs") auto
  next
    case nsp: False
    show ?thesis
    proof (cases "c = dquote")
      case True
      have "(case drop 1 (dropWhile (\<lambda>x. x \<noteq> dquote) cs) of
               [] \<Rightarrow> [[]]
             | x # r \<Rightarrow> if x = CHR '' '' then tokens_spec [] r else tokens_spec [x] r) \<noteq> []"
        by (simp add: tokens_spec_nonempty split: list.split)
      then have "1 \<le> length (case drop 1 (dropWhile (\<lambda>x. x \<noteq> dquote) cs) of
               [] \<Rightarrow> [[]]
             | x # r \<Rightarrow> if x = CHR '' '' then tokens_spec [] r else tokens_spec [x] r)"
        by (simp add: Suc_le_eq)
      with True nsp show ?thesis
        by simp
    next
      case False
      with nsp "2.prems" have "CHR '' '' \<in> set cs \<or> dquote \<in> set cs"
        by auto
      with "2.IH"(4) [OF nsp False] nsp False show ?thesis
        by simp
    qed
  qed
qed

lemma tokenize_nonempty_of_space:
  assumes "CHR '' '' \<in> set input"
  shows "tokenize input \<noteq> Inr []"
proof -
  have "2 \<le> length (tokens_spec [] input)"
    using assms by (intro tokens_spec_two_or_more) simp
  then have "butlast (tokens_spec [] input) \<noteq> []"
    by (cases "tokens_spec [] input" rule: rev_cases) auto
  then show ?thesis
    by (simp add: tokenize_refines tokenize_spec_def Let_def)
qed

subsection \<open>The final test of both scanners, and a pipeline of one segment\<close>

lemmas header_defs = O_RDONLY_def O_WRONLY_def O_ACCMODE_def O_CREAT_def O_TRUNC_def
  O_APPEND_def O_EXCL_def S_IRUSR_def S_IWUSR_def S_IRGRP_def S_IROTH_def S_IWGRP_def S_IWOTH_def
  FILEFLAGS_def FILEFLAGS_APPEND_def RW_PERMS_def

lemma parse_line_refines:
  "parse_line input =
     Inr (butlast (segments_spec False [] input) @
            (if input = [] \<or> 2 \<le> length (last (segments_spec False [] input))
             then [last (segments_spec False [] input)] else []),
          unquoted_amp False input)"
  by (simp add: parse_line_def splitByPipe_refines split_spec_def Let_def butlast_append)

lemma tokenize_loop_final:
  assumes "tokenize_loop input 0 0 [] = Inr (start, tokens)"
  shows "tokenize input =
         Inr (if start < size_minus_one (length input) then tokens @ [drop start input] else tokens)"
proof (cases "input = []")
  case True
  with assms have "start = 0" "tokens = []"
    by (simp_all add: tokenize_loop_end)
  with True assms show ?thesis
    by (simp add: tokenize_def substr_from_def)
next
  case False
  then have "start < size_minus_one (length input) \<Longrightarrow> start \<le> length input"
    by (simp add: size_minus_one_def)
  with assms show ?thesis
    by (auto simp: tokenize_def substr_from_def)
qed

lemma split_loop_final:
  assumes "split_loop input 0 0 False [] = Inr (start, background, segments)"
  shows "splitByPipe input =
         Inr ((if start < size_minus_one (length input) then segments @ [drop start input]
               else segments) @ [if background then ''&'' else ''-''])"
proof (cases "input = []")
  case True
  with assms have "start = 0" "segments = []"
    by (simp_all add: split_loop_end)
  with True assms show ?thesis
    by (simp add: splitByPipe_def substr_from_def)
next
  case False
  then have "start < size_minus_one (length input) \<Longrightarrow> start \<le> length input"
    by (simp add: size_minus_one_def)
  with assms show ?thesis
    by (auto simp: splitByPipe_def substr_from_def)
qed

lemma run_pipeline_single:
  "run_pipeline forks [seg] bg =
     [PDup2 Indeterminate STDIN_FILENO]
       @ (if forks 0 then [Fork (Some (run_cmd seg bg))] else [Fork None, Print_error 0])
       @ (if bg then [] else [Wait])
       @ [PClose Indeterminate]"
  by (simp add: run_pipeline_def pipe_loop.simps size_minus_one_def child_last_def)

subsection \<open>The pipe ends of the parent\<close>

lemma held_pipe_ends_append:
  "held_pipe_ends (tr @ es) = foldl held_step (held_pipe_ends tr) es"
  by (simp add: held_pipe_ends_def)

lemma pipes_created_append:
  "pipes_created (tr @ es) = pipes_created tr + pipes_created es"
  by (simp add: pipes_created_def)

lemma removeAll_PipeWr_reads:
  "removeAll (PipeWr i) (map PipeRd xs) = map PipeRd xs"
  by (induction xs) auto

lemma removeAll_not_read:
  "\<forall>j. x \<noteq> PipeRd j \<Longrightarrow> removeAll x (map PipeRd xs) = map PipeRd xs"
  by (induction xs) auto

lemma pipe_loop_held:
  assumes "pipe_loop forks piped bg i fd tr = (k, fd', tr')"
    and "held_pipe_ends tr = map PipeRd [0..<i]" "pipes_created tr = i"
    and "\<forall>j. PClose (PipeRd j) \<notin> set tr" "\<forall>j. snd fd \<noteq> PipeRd j"
  shows "removeAll (snd fd') (held_pipe_ends tr') = map PipeRd [0..<pipes_created tr'] \<and>
         (\<forall>j. PClose (PipeRd j) \<notin> set tr') \<and> (\<forall>j. snd fd' \<noteq> PipeRd j)"
  using assms
proof (induction forks piped bg i fd tr rule: pipe_loop.induct)
  case (1 forks piped bg i fd tr)
  show ?case
  proof (cases "i < size_minus_one (length piped)")
    case False
    with "1.prems"(1) have "k = i" "fd' = fd" "tr' = tr"
      by (simp_all add: pipe_loop.simps)
    with "1.prems" show ?thesis
      by (simp add: removeAll_not_read)
  next
    case lt: True
    show ?thesis
    proof (cases "forks i")
      case False
      with lt "1.prems"(1) have res: "fd' = (PipeRd i, PipeWr i)"
        "tr' = tr @ [Pipe i, Fork None, Print_error 0]"
        by (simp_all add: pipe_loop.simps)
      have "held_pipe_ends tr' = map PipeRd [0..<i] @ [PipeRd i, PipeWr i]"
        using "1.prems"(2) by (simp add: res held_pipe_ends_append)
      then have "removeAll (snd fd') (held_pipe_ends tr') = map PipeRd [0..<Suc i]"
        by (simp add: res removeAll_PipeWr_reads)
      moreover have "pipes_created tr' = Suc i"
        using "1.prems"(3) by (simp add: res pipes_created_append) (simp add: pipes_created_def)
      ultimately show ?thesis
        using "1.prems"(4) by (simp add: res)
    next
      case True
      let ?tr = "tr @ [Pipe i, Fork (Some (child_stage piped bg i)),
                    PDup2 (PipeRd i) STDIN_FILENO, PClose (PipeWr i)]"
      have run: "pipe_loop forks piped bg (i + 1) (PipeRd i, PipeWr i) ?tr = (k, fd', tr')"
        using lt True "1.prems"(1) by (subst (asm) pipe_loop.simps) simp
      have "held_pipe_ends ?tr = removeAll (PipeWr i) (map PipeRd [0..<i] @ [PipeRd i, PipeWr i])"
        using "1.prems"(2) by (simp add: held_pipe_ends_append)
      then have h: "held_pipe_ends ?tr = map PipeRd [0..<i + 1]"
        by (simp add: removeAll_PipeWr_reads)
      have p: "pipes_created ?tr = i + 1"
        using "1.prems"(3) by (simp add: pipes_created_append) (simp add: pipes_created_def)
      have c: "\<forall>j. PClose (PipeRd j) \<notin> set ?tr"
        using "1.prems"(4) by simp
      have f: "\<forall>j. snd (PipeRd i, PipeWr i) \<noteq> PipeRd j"
        by simp
      from True have "\<not> \<not> forks i" by simp
      from "1.IH" [OF lt this run h p c f] show ?thesis .
    qed
  qed
qed

lemma run_pipeline_held:
  "held_pipe_ends (run_pipeline forks piped bg) =
     map PipeRd [0..<pipes_created (run_pipeline forks piped bg)] \<and>
   (\<forall>j. PClose (PipeRd j) \<notin> set (run_pipeline forks piped bg))"
proof -
  obtain k fd0 fd1 tr where
    run: "pipe_loop forks piped bg 0 (Indeterminate, Indeterminate) [] = (k, (fd0, fd1), tr)"
    by (cases "pipe_loop forks piped bg 0 (Indeterminate, Indeterminate) []") auto
  have "held_pipe_ends [] = map PipeRd [0..<0]" "pipes_created [] = 0"
    by (simp_all add: held_pipe_ends_def pipes_created_def)
  from pipe_loop_held [OF run this]
  have inv: "removeAll fd1 (held_pipe_ends tr) = map PipeRd [0..<pipes_created tr]"
    "\<forall>j. PClose (PipeRd j) \<notin> set tr" "\<forall>j. fd1 \<noteq> PipeRd j"
    by simp_all
  let ?rest = "[PDup2 fd0 STDIN_FILENO]
      @ (if forks k then [Fork (Some (child_last piped bg))] else [Fork None, Print_error 0])
      @ (if bg then [] else [Wait]) @ [PClose fd1]"
  have eq: "run_pipeline forks piped bg = tr @ ?rest"
    by (simp add: run_pipeline_def run)
  have "foldl held_step S ?rest = removeAll fd1 S" for S
    by simp
  then have "held_pipe_ends (tr @ ?rest) = removeAll fd1 (held_pipe_ends tr)"
    by (simp only: held_pipe_ends_append)
  moreover have "pipes_created (tr @ ?rest) = pipes_created tr"
    by (simp add: pipes_created_append) (simp add: pipes_created_def)
  moreover have "\<forall>j. PClose (PipeRd j) \<notin> set (tr @ ?rest)"
    using inv(2,3) by auto
  ultimately show ?thesis
    using inv(1) unfolding eq by simp
qed

lemma pipe_loop_all_forks:
  assumes "pipe_loop (\<lambda>k. True) piped bg i fd tr = (k, fd', tr')"
    and "pipes_created tr = i" "i \<le> size_minus_one (length piped)"
  shows "pipes_created tr' = size_minus_one (length piped)"
  using assms
proof (induction "\<lambda>k::nat. True" piped bg i fd tr rule: pipe_loop.induct)
  case (1 piped bg i fd tr)
  show ?case
  proof (cases "i < size_minus_one (length piped)")
    case False
    with "1.prems" show ?thesis
      by (simp add: pipe_loop.simps)
  next
    case True
    let ?tr = "tr @ [Pipe i, Fork (Some (child_stage piped bg i)),
                  PDup2 (PipeRd i) STDIN_FILENO, PClose (PipeWr i)]"
    have run: "pipe_loop (\<lambda>k. True) piped bg (i + 1) (PipeRd i, PipeWr i) ?tr = (k, fd', tr')"
      using True "1.prems"(1) by (subst (asm) pipe_loop.simps) simp
    have p: "pipes_created ?tr = i + 1"
      using "1.prems"(2) by (simp add: pipes_created_append) (simp add: pipes_created_def)
    from "1.hyps" [OF True _ run p] True show ?thesis
      by simp
  qed
qed

lemma run_pipeline_all_forks:
  "pipes_created (run_pipeline (\<lambda>k. True) piped bg) = size_minus_one (length piped)"
proof -
  obtain k fd0 fd1 tr where
    run: "pipe_loop (\<lambda>k. True) piped bg 0 (Indeterminate, Indeterminate) [] = (k, (fd0, fd1), tr)"
    by (cases "pipe_loop (\<lambda>k. True) piped bg 0 (Indeterminate, Indeterminate) []") auto
  have "pipes_created [] = 0"
    by (simp add: pipes_created_def)
  from pipe_loop_all_forks [OF run this] have "pipes_created tr = size_minus_one (length piped)"
    by simp
  then show ?thesis
    by (simp add: run_pipeline_def run pipes_created_append) (simp add: pipes_created_def)
qed

subsection \<open>The calls of the parent, turn by turn\<close>

text \<open>
  The events of the pipe loop when every \<open>fork\<close> of it succeeds, and when the \<open>fork\<close> of
  turn \<open>j\<close> is the first that fails; from them the events of a whole pipeline.
\<close>

lemma pipe_loop_succeed:
  assumes "\<forall>k. i \<le> k \<and> k < size_minus_one (length piped) \<longrightarrow> forks k"
    and "i \<le> size_minus_one (length piped)"
  shows "pipe_loop forks piped bg i fd tr =
     (size_minus_one (length piped),
      (if i < size_minus_one (length piped)
       then (PipeRd (size_minus_one (length piped) - 1), PipeWr (size_minus_one (length piped) - 1))
       else fd),
      tr @ concat (map (\<lambda>k. [Pipe k, Fork (Some (child_stage piped bg k)),
                               PDup2 (PipeRd k) STDIN_FILENO, PClose (PipeWr k)])
                     [i..<size_minus_one (length piped)]))"
  using assms
proof (induction "size_minus_one (length piped) - i" arbitrary: i fd tr)
  case 0
  then have "i = size_minus_one (length piped)"
    by simp
  then show ?case
    by (simp add: pipe_loop.simps)
next
  case (Suc d)
  then have lt: "i < size_minus_one (length piped)"
    by arith
  with Suc.prems have f: "forks i"
    by simp
  have d: "d = size_minus_one (length piped) - (i + 1)"
    using Suc.hyps(2) by arith
  have a: "\<forall>k. i + 1 \<le> k \<and> k < size_minus_one (length piped) \<longrightarrow> forks k"
    using Suc.prems(1) by simp
  have b: "i + 1 \<le> size_minus_one (length piped)"
    using lt by simp
  note IH = Suc.hyps(1) [OF d a b]
  have u: "[i..<size_minus_one (length piped)] = i # [i + 1..<size_minus_one (length piped)]"
    using lt by (simp add: upt_conv_Cons)
  show ?case
  proof (cases "i + 1 < size_minus_one (length piped)")
    case True
    with lt f show ?thesis
      by (subst pipe_loop.simps) (simp add: IH [simplified] u)
  next
    case False
    with lt have e: "size_minus_one (length piped) - 1 = i"
      by arith
    from False lt f show ?thesis
      by (subst pipe_loop.simps) (simp add: IH [simplified] u e)
  qed
qed

lemma pipe_loop_fail:
  assumes "\<forall>k. i \<le> k \<and> k < j \<longrightarrow> forks k" and "\<not> forks j"
    and "i \<le> j" and "j < size_minus_one (length piped)"
  shows "pipe_loop forks piped bg i fd tr =
     (j + 1, (PipeRd j, PipeWr j),
      tr @ concat (map (\<lambda>k. [Pipe k, Fork (Some (child_stage piped bg k)),
                               PDup2 (PipeRd k) STDIN_FILENO, PClose (PipeWr k)]) [i..<j])
         @ [Pipe j, Fork None, Print_error 0])"
  using assms
proof (induction "j - i" arbitrary: i fd tr)
  case 0
  then have "i = j"
    by simp
  with 0 show ?case
    by (subst pipe_loop.simps) simp
next
  case (Suc d)
  then have lt: "i < j"
    by arith
  with Suc.prems have f: "forks i" and lt': "i < size_minus_one (length piped)"
    by simp_all
  have d: "d = j - (i + 1)"
    using Suc.hyps(2) by arith
  have a: "\<forall>k. i + 1 \<le> k \<and> k < j \<longrightarrow> forks k"
    using Suc.prems(1) by simp
  have b: "i + 1 \<le> j"
    using lt by simp
  note IH = Suc.hyps(1) [OF d a Suc.prems(2) b Suc.prems(4)]
  have u: "[i..<j] = i # [i + 1..<j]"
    using lt by (simp add: upt_conv_Cons)
  from lt' f show ?case
    by (subst pipe_loop.simps) (simp add: IH [simplified] u)
qed

lemma run_pipeline_succeed:
  assumes "2 \<le> length piped" and "\<forall>k < length piped - 1. forks k"
  shows "run_pipeline forks piped bg =
     concat (map (\<lambda>k. [Pipe k, Fork (Some (child_stage piped bg k)),
                        PDup2 (PipeRd k) STDIN_FILENO, PClose (PipeWr k)])
               [0..<length piped - 1])
       @ [PDup2 (PipeRd (length piped - 2)) STDIN_FILENO]
       @ (if forks (length piped - 1) then [Fork (Some (child_last piped bg))]
          else [Fork None, Print_error 0])
       @ (if bg then [] else [Wait])
       @ [PClose (PipeWr (length piped - 2))]"
proof -
  from assms(1) have "length piped \<noteq> 0"
    by arith
  then have m: "size_minus_one (length piped) = length piped - 1"
    by (simp only: size_minus_one_def if_False)
  have a: "\<forall>k. 0 \<le> k \<and> k < size_minus_one (length piped) \<longrightarrow> forks k"
    using assms(2) m by simp
  have e: "length piped - 1 - 1 = length piped - 2"
    by arith
  have p: "0 < length piped - 1"
    using assms(1) by arith
  show ?thesis
    using pipe_loop_succeed [OF a, of bg "(Indeterminate, Indeterminate)" "[]"] p
    by (simp add: run_pipeline_def m e)
qed

lemma run_pipeline_fail:
  assumes "j + 1 < length piped" and "\<forall>k < j. forks k" and "\<not> forks j"
  shows "run_pipeline forks piped bg =
     concat (map (\<lambda>k. [Pipe k, Fork (Some (child_stage piped bg k)),
                        PDup2 (PipeRd k) STDIN_FILENO, PClose (PipeWr k)]) [0..<j])
       @ [Pipe j, Fork None, Print_error 0, PDup2 (PipeRd j) STDIN_FILENO]
       @ (if forks (j + 1) then [Fork (Some (child_last piped bg))]
          else [Fork None, Print_error 0])
       @ (if bg then [] else [Wait])
       @ [PClose (PipeWr j)]"
proof -
  from assms(1) have "length piped \<noteq> 0"
    by arith
  then have m: "size_minus_one (length piped) = length piped - 1"
    by (simp only: size_minus_one_def if_False)
  have a: "\<forall>k. 0 \<le> k \<and> k < j \<longrightarrow> forks k"
    using assms(2) by simp
  have b: "j < size_minus_one (length piped)"
    using assms(1) m by arith
  show ?thesis
    using pipe_loop_fail [OF a assms(3) _ b, of bg "(Indeterminate, Indeterminate)" "[]"]
    by (simp add: run_pipeline_def)
qed


subsection \<open>The dispatch of the built-ins\<close>







subsection \<open>The character \<open>&\<close> in the segments\<close>

text \<open>
  The scan of the segments tests a character against the space, the double quote and the
  two separators only, so it commutes with every map of the characters that keeps these
  four apart from the rest; and it removes no \<open>&\<close>.
\<close>

lemma skip_space_map:
  assumes "\<And>c. (f c = CHR '' '') = (c = CHR '' '')"
  shows "skip_space (map f cs) = map f (skip_space cs)"
  using assms by (cases cs) auto

lemma segments_spec_map:
  assumes sp: "\<And>c. (f c = CHR '' '') = (c = CHR '' '')"
    and q: "\<And>c. (f c = dquote) = (c = dquote)"
    and b: "\<And>c. (f c = CHR ''|'') = (c = CHR ''|'')"
    and s: "\<And>c. (f c = CHR '';'') = (c = CHR '';'')"
  shows "segments_spec qu (map f cur) (map f rest) = map (map f) (segments_spec qu cur rest)"
proof (induction qu cur rest rule: segments_spec.induct)
  case (1 q cur)
  show ?case by simp
next
  case (2 cur c cs)
  from 2 [symmetric] show ?case
    by (simp add: q)
next
  case (3 cur c cs)
  show ?case
  proof (cases "c = CHR ''|'' \<or> c = CHR '';''")
    case True
    with "3.IH"(1) show ?thesis
      by (simp add: b s skip_space_map [of f, OF sp])
  next
    case False
    with "3.IH"(2) [symmetric] show ?thesis
      by (simp add: b s q)
  qed
qed

lemma unquoted_amp_none:
  "CHR ''&'' \<notin> set s \<Longrightarrow> \<not> unquoted_amp q s"
  by (induction q s rule: unquoted_amp.induct) auto

lemma count_amp_skip_space:
  "count_list (skip_space cs) (CHR ''&'') = count_list cs (CHR ''&'')"
  by (cases cs) auto

lemma count_amp_segments_spec:
  "count_list (concat (segments_spec q cur rest)) (CHR ''&'') =
     count_list cur (CHR ''&'') + count_list rest (CHR ''&'')"
proof (induction q cur rest rule: segments_spec.induct)
  case (1 q cur)
  show ?case by simp
next
  case (2 cur c cs)
  then show ?case by simp
next
  case (3 cur c cs)
  show ?case
  proof (cases "c = CHR ''|'' \<or> c = CHR '';''")
    case True
    with "3.IH"(1) show ?thesis
      by (auto simp: count_amp_skip_space)
  next
    case False
    with "3.IH"(2) show ?thesis
      by simp
  qed
qed

lemma count_list_concat_butlast:
  "S \<noteq> [] \<Longrightarrow> count_list (concat S) x = count_list (concat (butlast S)) x + count_list (last S) x"
  by (induction S) auto

lemma parse_line_amp_letter:
  "parse_line (map (\<lambda>c. if c = CHR ''&'' then CHR ''x'' else c) line) =
     Inr (map (map (\<lambda>c. if c = CHR ''&'' then CHR ''x'' else c))
            (butlast (segments_spec False [] line) @
               (if line = [] \<or> 2 \<le> length (last (segments_spec False [] line))
                then [last (segments_spec False [] line)] else [])),
          False)"
proof -
  let ?f = "\<lambda>c. if c = CHR ''&'' then CHR ''x'' else c"
  have S: "segments_spec False [] (map ?f line) = map (map ?f) (segments_spec False [] line)"
    using segments_spec_map [of ?f False "[]" line] by (simp add: dquote_def)
  have "CHR ''&'' \<notin> set (map ?f line)"
    by auto
  then have A: "\<not> unquoted_amp False (map ?f line)"
    by (rule unquoted_amp_none)
  have ne: "segments_spec False [] line \<noteq> []"
    by (rule segments_spec_nonempty)
  show ?thesis
    unfolding parse_line_refines S using A ne
    by (simp add: map_butlast last_map)
qed

lemma parse_line_count_amp:
  assumes "last (segments_spec False [] line) \<noteq> ''&''"
  shows "count_list (concat (butlast (segments_spec False [] line) @
               (if line = [] \<or> 2 \<le> length (last (segments_spec False [] line))
                then [last (segments_spec False [] line)] else []))) (CHR ''&'') =
         count_list line (CHR ''&'')"
proof -
  let ?S = "segments_spec False [] line"
  have ne: "?S \<noteq> []"
    by (rule segments_spec_nonempty)
  have all: "count_list (concat ?S) (CHR ''&'') = count_list line (CHR ''&'')"
    by (simp add: count_amp_segments_spec)
  have split: "count_list (concat ?S) (CHR ''&'') =
      count_list (concat (butlast ?S)) (CHR ''&'') + count_list (last ?S) (CHR ''&'')"
    using ne by (rule count_list_concat_butlast)
  show ?thesis
  proof (cases "line = [] \<or> 2 \<le> length (last ?S)")
    case True
    with all split show ?thesis
      by simp
  next
    case False
    then have "length (last ?S) \<le> 1"
      by simp
    with assms have "count_list (last ?S) (CHR ''&'') = 0"
      by (cases "last ?S") auto
    with False all split show ?thesis
      by simp
  qed
qed


subsection \<open>The wait calls of an iteration\<close>

lemma collecting_append: "collecting (a @ b) = collecting a @ collecting b"
  by (simp add: collecting_def)

lemma collecting_prologue: "collecting (prologue input) = []"
  by (simp add: collecting_def prologue_def waitid_einval_def)

lemma pipe_loop_collecting:
  "pipe_loop forks piped bg i fd tr = (k, fd', tr') \<Longrightarrow> collecting tr' = collecting tr"
proof (induction forks piped bg i fd tr rule: pipe_loop.induct)
  case (1 forks piped bg i fd tr)
  show ?case
  proof (cases "i < size_minus_one (length piped)")
    case False
    with "1.prems" show ?thesis
      by (simp add: pipe_loop.simps)
  next
    case lt: True
    show ?thesis
    proof (cases "forks i")
      case False
      with lt "1.prems" have "tr' = tr @ [Pipe i, Fork None, Print_error 0]"
        by (simp add: pipe_loop.simps)
      then show ?thesis
        by (simp add: collecting_def)
    next
      case True
      let ?tr = "tr @ [Pipe i, Fork (Some (child_stage piped bg i)),
                    PDup2 (PipeRd i) STDIN_FILENO, PClose (PipeWr i)]"
      have run: "pipe_loop forks piped bg (i + 1) (PipeRd i, PipeWr i) ?tr = (k, fd', tr')"
        using lt True "1.prems" by (subst (asm) pipe_loop.simps) simp
      from True have "\<not> \<not> forks i" by simp
      from "1.IH" [OF lt this run] show ?thesis
        by (simp add: collecting_def)
    qed
  qed
qed

lemma run_pipeline_collecting:
  "collecting (run_pipeline forks piped bg) = (if bg then [] else [Wait])"
proof -
  obtain k fd0 fd1 tr where
    run: "pipe_loop forks piped bg 0 (Indeterminate, Indeterminate) [] = (k, (fd0, fd1), tr)"
    by (cases "pipe_loop forks piped bg 0 (Indeterminate, Indeterminate) []") auto
  from pipe_loop_collecting [OF run] have "collecting tr = []"
    by (simp add: collecting_def)
  then show ?thesis
    by (simp add: run_pipeline_def run collecting_append) (simp add: collecting_def)
qed

lemma collecting_handlers:
  "collecting (handle_cd e dir) = []" "collecting handle_pwd = []"
  "collecting (handle_color color) = []" "collecting clear_screen = []" "collecting [] = []"
  by (simp_all add: collecting_def handle_cd_def handle_pwd_def handle_color_def
      clear_screen_def split: option.split)

lemma dispatch_events:
  "dispatch_builtin e input = Done evs out \<or> dispatch_builtin e input = Fall_through evs
     \<Longrightarrow> evs = [] \<or> evs = clear_screen \<or> evs = handle_pwd \<or>
         (\<exists>dir. evs = handle_cd e dir) \<or> (\<exists>color. evs = handle_color color)"
  unfolding dispatch_builtin_def
  by (elim disjE) (simp_all only: dispatch.inject dispatch.distinct split: if_splits sum.splits, blast+)

lemma collecting_dispatch:
  assumes "dispatch_builtin e input = Done evs out \<or> dispatch_builtin e input = Fall_through evs"
  shows "collecting evs = []"
  using dispatch_events [OF assms] by (auto simp: collecting_handlers)

lemma shell_iteration_collecting:
  "collecting (fst (shell_iteration e input)) =
     (case dispatch_builtin e input of
        Done evs out \<Rightarrow> []
      | Fall_through evs \<Rightarrow> if unquoted_amp False input then [] else [Wait])"
proof (cases "dispatch_builtin e input")
  case (Done evs out)
  then show ?thesis
    using collecting_dispatch [of e input evs out]
    by (simp add: shell_iteration_def collecting_append collecting_prologue)
next
  case (Fall_through evs)
  have l: "last (split_spec input) = ''&'' \<longleftrightarrow> unquoted_amp False input"
    by (simp add: split_spec_def Let_def)
  from Fall_through show ?thesis
    using collecting_dispatch [of e input evs]
    by (simp add: shell_iteration_def splitByPipe_refines collecting_append collecting_prologue
        run_pipeline_collecting l)
qed

lemma shell_iteration_prologue:
  "take 4 (fst (shell_iteration e input)) = prologue input"
proof -
  have "length (prologue input) = 4"
    by (simp add: prologue_def)
  then show ?thesis
    by (simp add: shell_iteration_def splitByPipe_refines split: dispatch.split)
qed

lemma run_pipeline_forks:
  assumes "2 \<le> length piped" and "\<forall>k < length piped. forks k"
  shows "length (filter is_fork (run_pipeline forks piped bg)) = length piped"
proof -
  have "length (filter is_fork (concat (map (\<lambda>k. [Pipe k, Fork (Some (child_stage piped bg k)),
                        PDup2 (PipeRd k) STDIN_FILENO, PClose (PipeWr k)]) xs))) = length xs"
    for xs
    by (induction xs) auto
  moreover have "\<forall>k < length piped - 1. forks k" and "forks (length piped - 1)"
    using assms by simp_all
  ultimately show ?thesis
    using assms(1) by (simp add: run_pipeline_succeed)
qed

section \<open>The claims\<close>

text \<open>
  C1, amended. For every non-empty line whose text behind the last separator is not exactly
  one character long, \<open>splitByPipe\<close> returns the segments of the line in order, followed
  by the marker: every \<open>|\<close> or \<open>;\<close> outside quotes ends the segment under way, which
  keeps its trailing spaces; one space behind a separator is skipped; an empty text behind
  the last separator is dropped. In particular two commands joined by one separator, the
  second of two characters or more behind its skipped space, come back as exactly these
  two segments and the marker.
\<close>

theorem C1_segments:
  "(input \<noteq> [] \<and> length (last (segments_spec False [] input)) \<noteq> 1 \<longrightarrow>
      splitByPipe input =
        Inr (drop_trailing_empty (segments_spec False [] input)
             @ [if unquoted_amp False input then ''&'' else ''-''])) \<and>
   (dquote \<notin> set c1 \<and> CHR ''|'' \<notin> set c1 \<and> CHR '';'' \<notin> set c1 \<and>
    CHR ''|'' \<notin> set c2 \<and> CHR '';'' \<notin> set c2 \<and> (sep = CHR ''|'' \<or> sep = CHR '';'') \<and>
    2 \<le> length (skip_space c2) \<longrightarrow>
      splitByPipe (c1 @ sep # c2) =
        Inr [c1, skip_space c2, if unquoted_amp False (c1 @ sep # c2) then ''&'' else ''-''])"
proof (intro conjI impI)
  assume a: "input \<noteq> [] \<and> length (last (segments_spec False [] input)) \<noteq> 1"
  let ?S = "segments_spec False [] input"
  have ne: "?S \<noteq> []"
    by (rule segments_spec_nonempty)
  have "butlast ?S @ (if input = [] \<or> 2 \<le> length (last ?S) then [last ?S] else []) =
        drop_trailing_empty ?S"
  proof (cases "last ?S = []")
    case True
    with a show ?thesis
      by (simp add: drop_trailing_empty_def)
  next
    case False
    then have "length (last ?S) \<noteq> 0"
      by simp
    with a have "2 \<le> length (last ?S)"
      by arith
    with False ne show ?thesis
      by (simp add: drop_trailing_empty_def)
  qed
  then show "splitByPipe input =
      Inr (drop_trailing_empty ?S @ [if unquoted_amp False input then ''&'' else ''-''])"
    by (simp add: splitByPipe_refines split_spec_def Let_def)
next
  assume "dquote \<notin> set c1 \<and> CHR ''|'' \<notin> set c1 \<and> CHR '';'' \<notin> set c1 \<and>
    CHR ''|'' \<notin> set c2 \<and> CHR '';'' \<notin> set c2 \<and> (sep = CHR ''|'' \<or> sep = CHR '';'') \<and>
    2 \<le> length (skip_space c2)"
  then have S: "segments_spec False [] (c1 @ sep # c2) = [c1, skip_space c2]"
    and len: "2 \<le> length (skip_space c2)"
    by (simp_all add: segments_spec_two)
  show "splitByPipe (c1 @ sep # c2) =
      Inr [c1, skip_space c2, if unquoted_amp False (c1 @ sep # c2) then ''&'' else ''-'']"
    unfolding splitByPipe_refines split_spec_def Let_def S using len by simp
qed

text \<open>
  The theorem at the lines \<open>aa | bb | cc\<close> and \<open>ls | wc -l\<close>: three and two segments, each
  but the last with its trailing space, and the marker \<open>-\<close> of a foreground pipeline.
\<close>

theorem C1_segments_witness:
  "''aa | bb | cc'' \<noteq> [] \<and> length (last (segments_spec False [] ''aa | bb | cc'')) \<noteq> 1 \<and>
   splitByPipe ''aa | bb | cc'' = Inr [''aa '', ''bb '', ''cc'', ''-''] \<and>
   2 \<le> length (skip_space '' wc -l'') \<and>
   splitByPipe ''ls | wc -l'' = Inr [''ls '', ''wc -l'', ''-'']"
proof -
  note T = C1_segments [where input = "''aa | bb | cc''" and ?c1.0 = "''ls ''"
      and sep = "CHR ''|''" and ?c2.0 = "'' wc -l''"]
  have S: "segments_spec False [] ''aa | bb | cc'' = [''aa '', ''bb '', ''cc'']"
    by (simp add: dquote_def)
  have h1: "''aa | bb | cc'' \<noteq> []"
    by simp
  have h2: "length (last (segments_spec False [] ''aa | bb | cc'')) \<noteq> 1"
    unfolding S by simp
  have A: "unquoted_amp False ''aa | bb | cc'' = False"
    by (simp add: dquote_def)
  have "splitByPipe ''aa | bb | cc'' =
      Inr (drop_trailing_empty (segments_spec False [] ''aa | bb | cc'')
           @ [if unquoted_amp False ''aa | bb | cc'' then ''&'' else ''-''])"
    using T [THEN conjunct1] h1 h2 by blast
  then have c1: "splitByPipe ''aa | bb | cc'' = Inr [''aa '', ''bb '', ''cc'', ''-'']"
    unfolding S A drop_trailing_empty_def by simp
  have h3: "dquote \<notin> set ''ls '' \<and> CHR ''|'' \<notin> set ''ls '' \<and> CHR '';'' \<notin> set ''ls '' \<and>
      CHR ''|'' \<notin> set '' wc -l'' \<and> CHR '';'' \<notin> set '' wc -l'' \<and>
      (CHR ''|'' = CHR ''|'' \<or> CHR ''|'' = CHR '';'') \<and> 2 \<le> length (skip_space '' wc -l'')"
    by (simp add: dquote_def)
  have B: "unquoted_amp False (''ls '' @ CHR ''|'' # '' wc -l'') = False"
    by (simp add: dquote_def)
  have "splitByPipe (''ls '' @ CHR ''|'' # '' wc -l'') =
      Inr [''ls '', skip_space '' wc -l'',
           if unquoted_amp False (''ls '' @ CHR ''|'' # '' wc -l'') then ''&'' else ''-'']"
    by (rule T [THEN conjunct2, THEN mp, OF h3])
  then have c2: "splitByPipe ''ls | wc -l'' = Inr [''ls '', ''wc -l'', ''-'']"
    unfolding B by simp
  from h1 h2 c1 h3 c2 show ?thesis
    by blast
qed

text \<open>
  C1 as the specification states it fails at its own example: \<open>a | b | c\<close> gives the two
  segments \<open>a\<close> and \<open>b\<close>, each with its trailing space, and no segment \<open>c\<close>.
\<close>

theorem C1_counterexample:
  "splitByPipe ''a | b | c'' = Inr [''a '', ''b '', ''-''] \<and>
   splitByPipe ''a | b | c'' \<noteq> Inr [''a'', ''b'', ''c'', ''-'']"
proof -
  have "splitByPipe ''a | b | c'' = Inr [''a '', ''b '', ''-'']"
    by code_simp
  then show ?thesis by simp
qed

text \<open>
  C2. A pipeline of one segment takes the same path as a longer one, with no turn of the
  pipe loop, and the segment is handed to \<open>run_cmd\<close> with the background flag as in every
  other stage. But no \<open>pipe\<close> call is made in that run, and the parent calls \<open>dup2\<close> on
  \<open>fd[0]\<close> and \<open>close\<close> on \<open>fd[1]\<close> while both still hold indeterminate values: the
  descriptors it duplicates and closes were not created by a \<open>pipe\<close> call of the run. The
  line \<open>ls\<close> is such a pipeline.
\<close>

theorem C2_single_segment:
  "run_pipeline forks [seg] bg =
     [PDup2 Indeterminate STDIN_FILENO]
       @ (if forks 0 then [Fork (Some (run_cmd seg bg))] else [Fork None, Print_error 0])
       @ (if bg then [] else [Wait])
       @ [PClose Indeterminate] \<and>
   pipes_created (run_pipeline forks [seg] bg) = 0 \<and>
   parse_line ''ls'' = Inr ([''ls''], False) \<and>
   run_pipeline (\<lambda>k. True) [''ls''] False =
     [PDup2 Indeterminate STDIN_FILENO, Fork (Some (Inr [Execvp [''ls'']])), Wait,
      PClose Indeterminate]"
proof (intro conjI)
  show "run_pipeline forks [seg] bg =
     [PDup2 Indeterminate STDIN_FILENO]
       @ (if forks 0 then [Fork (Some (run_cmd seg bg))] else [Fork None, Print_error 0])
       @ (if bg then [] else [Wait])
       @ [PClose Indeterminate]"
    by (rule run_pipeline_single)
  show "pipes_created (run_pipeline forks [seg] bg) = 0"
    by (simp add: run_pipeline_single pipes_created_def)
  show "parse_line ''ls'' = Inr ([''ls''], False)"
    by code_simp
  show "run_pipeline (\<lambda>k. True) [''ls''] False =
     [PDup2 Indeterminate STDIN_FILENO, Fork (Some (Inr [Execvp [''ls'']])), Wait,
      PClose Indeterminate]"
    by code_simp
qed

text \<open>
  C3. Every iteration of the read loop begins, before the prompt, with the call
  \<^verbatim>\<open>waitid(P_PID, 0, &status, WNOHANG)\<close>, which the comment of line 65 takes to collect the
  children that have finished. The call does not block, but it is invalid (its options
  name none of \<open>WEXITED\<close>, \<open>WSTOPPED\<close>, \<open>WCONTINUED\<close>, and 0 is no process id) and collects
  no child. The only call of an iteration that collects a child is the one \<open>wait(NULL)\<close>
  behind the last \<open>fork\<close> of a foreground pipeline, which returns with any one child: no
  call of the iteration of a background line collects a child, and a foreground pipeline of
  \<open>n\<close> segments forks \<open>n\<close> children and waits once. The lines \<open>sleep 5 &\<close> and \<open>ls | wc\<close>
  are evaluated.
\<close>

theorem C3_waitid_collects_nothing:
  "take 4 (fst (shell_iteration e input)) =
     [Waitid P_PID 0 [WNOHANG], PDup2 ORIG_STDIN STDIN_FILENO, Prompt, Getline input] \<and>
   waitid_einval P_PID 0 [WNOHANG] \<and>
   collects (Waitid P_PID 0 [WNOHANG]) = None \<and>
   blocks (Waitid P_PID 0 [WNOHANG]) = False \<and>
   collects Wait = Some (P_ALL, 0) \<and>
   collecting (fst (shell_iteration e input)) =
     (case dispatch_builtin e input of
        Done evs out \<Rightarrow> []
      | Fall_through evs \<Rightarrow> if unquoted_amp False input then [] else [Wait]) \<and>
   (unquoted_amp False input \<longrightarrow> collecting (fst (shell_iteration e input)) = []) \<and>
   collecting (run_pipeline forks piped bg) = (if bg then [] else [Wait]) \<and>
   (2 \<le> length piped \<and> (\<forall>k < length piped. forks k) \<longrightarrow>
      length (filter is_fork (run_pipeline forks piped False)) = length piped \<and>
      collecting (run_pipeline forks piped False) = [Wait]) \<and>
   shell_iteration \<lparr>fork_ok = \<lambda>k. True, chdir_ok = \<lambda>d. True\<rparr> ''sleep 5 &'' =
     ([Waitid P_PID 0 [WNOHANG], PDup2 ORIG_STDIN STDIN_FILENO, Prompt, Getline ''sleep 5 &'',
       PDup2 Indeterminate STDIN_FILENO,
       Fork (Some (Inr [Setpgid, Execvp [''sleep'', ''5'']])),
       PClose Indeterminate],
      Continue)"
proof (intro conjI impI)
  show "take 4 (fst (shell_iteration e input)) =
      [Waitid P_PID 0 [WNOHANG], PDup2 ORIG_STDIN STDIN_FILENO, Prompt, Getline input]"
    using shell_iteration_prologue [of e input] by (simp add: prologue_def)
  show "waitid_einval P_PID 0 [WNOHANG]"
    by (simp add: waitid_einval_def)
  then show "collects (Waitid P_PID 0 [WNOHANG]) = None"
    and "blocks (Waitid P_PID 0 [WNOHANG]) = False"
    by simp_all
  show "collects Wait = Some (P_ALL, 0)"
    by simp
  show c: "collecting (fst (shell_iteration e input)) =
     (case dispatch_builtin e input of
        Done evs out \<Rightarrow> []
      | Fall_through evs \<Rightarrow> if unquoted_amp False input then [] else [Wait])"
    by (rule shell_iteration_collecting)
  show "collecting (run_pipeline forks piped bg) = (if bg then [] else [Wait])"
    by (rule run_pipeline_collecting)
  show "shell_iteration \<lparr>fork_ok = \<lambda>k. True, chdir_ok = \<lambda>d. True\<rparr> ''sleep 5 &'' =
     ([Waitid P_PID 0 [WNOHANG], PDup2 ORIG_STDIN STDIN_FILENO, Prompt, Getline ''sleep 5 &'',
       PDup2 Indeterminate STDIN_FILENO,
       Fork (Some (Inr [Setpgid, Execvp [''sleep'', ''5'']])),
       PClose Indeterminate],
      Continue)"
    by code_simp
  {
    assume "unquoted_amp False input"
    with c show "collecting (fst (shell_iteration e input)) = []"
      by (simp split: dispatch.split)
  }
  {
    assume a: "2 \<le> length piped \<and> (\<forall>k < length piped. forks k)"
    then show "length (filter is_fork (run_pipeline forks piped False)) = length piped"
      by (intro run_pipeline_forks) simp_all
    show "collecting (run_pipeline forks piped False) = [Wait]"
      by (simp add: run_pipeline_collecting)
  }
qed

text \<open>
  The theorem at the background line \<open>sleep 5 &\<close>, whose iteration collects no child, and
  at the two segments of \<open>ls | wc\<close>: two children and one \<open>wait(NULL)\<close>.
\<close>

theorem C3_waitid_collects_nothing_witness:
  "unquoted_amp False ''sleep 5 &'' \<and>
   collecting (fst (shell_iteration \<lparr>fork_ok = \<lambda>k. True, chdir_ok = \<lambda>d. True\<rparr> ''sleep 5 &'')) = [] \<and>
   2 \<le> length [''ls '', ''wc''] \<and>
   parse_line ''ls | wc'' = Inr ([''ls '', ''wc''], False) \<and>
   length (filter is_fork (run_pipeline (\<lambda>k. True) [''ls '', ''wc''] False)) = 2 \<and>
   collecting (run_pipeline (\<lambda>k. True) [''ls '', ''wc''] False) = [Wait]"
proof -
  note T = C3_waitid_collects_nothing [where e = "\<lparr>fork_ok = \<lambda>k. True, chdir_ok = \<lambda>d. True\<rparr>"
      and input = "''sleep 5 &''" and piped = "[''ls '', ''wc'']" and forks = "\<lambda>k. True"]
  have a: "unquoted_amp False ''sleep 5 &''"
    by (simp add: dquote_def)
  have h: "2 \<le> length [''ls '', ''wc''] \<and> (\<forall>k < length [''ls '', ''wc'']. (\<lambda>k. True) k)"
    by simp
  have p: "parse_line ''ls | wc'' = Inr ([''ls '', ''wc''], False)"
    by code_simp
  from T a
  have c1: "collecting (fst (shell_iteration \<lparr>fork_ok = \<lambda>k. True, chdir_ok = \<lambda>d. True\<rparr>
      ''sleep 5 &'')) = []"
    by blast
  from T h
  have "length (filter is_fork (run_pipeline (\<lambda>k. True) [''ls '', ''wc''] False)) =
      length [''ls '', ''wc''] \<and>
    collecting (run_pipeline (\<lambda>k. True) [''ls '', ''wc''] False) = [Wait]"
    by blast
  then have c2: "length (filter is_fork (run_pipeline (\<lambda>k. True) [''ls '', ''wc''] False)) = 2"
    and c3: "collecting (run_pipeline (\<lambda>k. True) [''ls '', ''wc''] False) = [Wait]"
    by simp_all
  from a c1 h p c2 c3 show ?thesis
    by simp
qed

text \<open>
  C4, amended. For every pipeline, whatever the \<open>fork\<close> calls answer, the parent closes
  the write end of every pipe it creates and never closes a read end: after the run it
  holds open exactly the read ends of the pipes created, and the first calls of the next
  iteration close none of them. Its calls are these, in this order. In every turn of the
  loop whose \<open>fork\<close> succeeds: \<open>pipe\<close>, \<open>fork\<close>, \<open>dup2\<close> of the read end onto the standard
  input, \<open>close\<close> of the write end. When every \<open>fork\<close> of the loop of a pipeline of \<open>n\<close> segments
  succeeds, \<open>n\<close> at least two, there are \<open>n - 1\<close> such turns, then \<open>dup2\<close> of the last read
  end once more, the last \<open>fork\<close> (and the error message when it fails), the \<open>wait\<close> of a
  foreground pipeline and \<open>close\<close> of the last write end once more; \<open>n - 1\<close> read ends stay
  open. When the \<open>fork\<close> of turn \<open>j\<close> is
  the first to fail, the loop ends there with the pipe of that turn open, and its read
  end is duplicated and its write end closed behind the last \<open>fork\<close>.
\<close>

theorem C4_read_ends_stay_open:
  "held_pipe_ends (run_pipeline forks piped bg) =
     map PipeRd [0..<pipes_created (run_pipeline forks piped bg)] \<and>
   (\<forall>j. PClose (PipeRd j) \<notin> set (run_pipeline forks piped bg)) \<and>
   held_pipe_ends (run_pipeline forks piped bg @ prologue next_line) =
     held_pipe_ends (run_pipeline forks piped bg) \<and>
   (2 \<le> length piped \<longrightarrow>
      held_pipe_ends (run_pipeline (\<lambda>k. True) piped bg) = map PipeRd [0..<length piped - 1]) \<and>
   (2 \<le> length piped \<and> (\<forall>k < length piped - 1. forks k) \<longrightarrow>
      run_pipeline forks piped bg =
        concat (map (\<lambda>k. [Pipe k, Fork (Some (child_stage piped bg k)),
                           PDup2 (PipeRd k) STDIN_FILENO, PClose (PipeWr k)])
                  [0..<length piped - 1])
          @ [PDup2 (PipeRd (length piped - 2)) STDIN_FILENO]
          @ (if forks (length piped - 1) then [Fork (Some (child_last piped bg))]
             else [Fork None, Print_error 0])
          @ (if bg then [] else [Wait])
          @ [PClose (PipeWr (length piped - 2))]) \<and>
   (i + 1 < length piped \<and> (\<forall>k < i. forks k) \<and> \<not> forks i \<longrightarrow>
      run_pipeline forks piped bg =
        concat (map (\<lambda>k. [Pipe k, Fork (Some (child_stage piped bg k)),
                           PDup2 (PipeRd k) STDIN_FILENO, PClose (PipeWr k)]) [0..<i])
          @ [Pipe i, Fork None, Print_error 0, PDup2 (PipeRd i) STDIN_FILENO]
          @ (if forks (i + 1) then [Fork (Some (child_last piped bg))]
             else [Fork None, Print_error 0])
          @ (if bg then [] else [Wait])
          @ [PClose (PipeWr i)])"
proof (intro conjI impI)
  show "held_pipe_ends (run_pipeline forks piped bg) =
      map PipeRd [0..<pipes_created (run_pipeline forks piped bg)]"
    using run_pipeline_held [of forks piped bg] by blast
  show "\<forall>j. PClose (PipeRd j) \<notin> set (run_pipeline forks piped bg)"
    using run_pipeline_held [of forks piped bg] by blast
  show "held_pipe_ends (run_pipeline forks piped bg @ prologue next_line) =
      held_pipe_ends (run_pipeline forks piped bg)"
    by (simp add: held_pipe_ends_append prologue_def)
next
  assume "2 \<le> length piped"
  then have "length piped \<noteq> 0"
    by arith
  then have "size_minus_one (length piped) = length piped - 1"
    by (simp only: size_minus_one_def if_False)
  then show "held_pipe_ends (run_pipeline (\<lambda>k. True) piped bg) =
      map PipeRd [0..<length piped - 1]"
    using run_pipeline_held [of "\<lambda>k. True" piped bg] run_pipeline_all_forks [of piped bg]
    by simp
next
  assume "2 \<le> length piped \<and> (\<forall>k < length piped - 1. forks k)"
  then show "run_pipeline forks piped bg =
        concat (map (\<lambda>k. [Pipe k, Fork (Some (child_stage piped bg k)),
                           PDup2 (PipeRd k) STDIN_FILENO, PClose (PipeWr k)])
                  [0..<length piped - 1])
          @ [PDup2 (PipeRd (length piped - 2)) STDIN_FILENO]
          @ (if forks (length piped - 1) then [Fork (Some (child_last piped bg))]
             else [Fork None, Print_error 0])
          @ (if bg then [] else [Wait])
          @ [PClose (PipeWr (length piped - 2))]"
    by (intro run_pipeline_succeed) simp_all
next
  assume "i + 1 < length piped \<and> (\<forall>k < i. forks k) \<and> \<not> forks i"
  then show "run_pipeline forks piped bg =
        concat (map (\<lambda>k. [Pipe k, Fork (Some (child_stage piped bg k)),
                           PDup2 (PipeRd k) STDIN_FILENO, PClose (PipeWr k)]) [0..<i])
          @ [Pipe i, Fork None, Print_error 0, PDup2 (PipeRd i) STDIN_FILENO]
          @ (if forks (i + 1) then [Fork (Some (child_last piped bg))]
             else [Fork None, Print_error 0])
          @ (if bg then [] else [Wait])
          @ [PClose (PipeWr i)]"
    by (intro run_pipeline_fail) simp_all
qed

text \<open>
  The theorem at the background pipeline \<open>ls -l | wc; echo hi &\<close> of three segments: two
  read ends stay open, and the calls of the parent are the two turns of the loop and the
  four calls behind it. When the second \<open>fork\<close> fails, the loop ends in its second turn.
\<close>

theorem C4_read_ends_stay_open_witness:
  "2 \<le> length [''ls -l '', ''wc'', ''echo hi &''] \<and>
   parse_line ''ls -l | wc; echo hi &'' = Inr ([''ls -l '', ''wc'', ''echo hi &''], True) \<and>
   held_pipe_ends (run_pipeline (\<lambda>k. True) [''ls -l '', ''wc'', ''echo hi &''] True) =
     [PipeRd 0, PipeRd 1] \<and>
   run_pipeline (\<lambda>k. True) [''ls -l '', ''wc'', ''echo hi &''] True =
     [Pipe 0,
      Fork (Some (Inr [Dup2 (PipeWr 0) STDOUT_FILENO, Setpgid, Execvp [''ls'', ''-l'']])),
      PDup2 (PipeRd 0) STDIN_FILENO, PClose (PipeWr 0),
      Pipe 1,
      Fork (Some (Inr [Dup2 (PipeWr 1) STDOUT_FILENO, Setpgid, Execvp [''wc'']])),
      PDup2 (PipeRd 1) STDIN_FILENO, PClose (PipeWr 1),
      PDup2 (PipeRd 1) STDIN_FILENO,
      Fork (Some (Inr [Setpgid, Execvp [''echo'', ''hi'']])),
      PClose (PipeWr 1)] \<and>
   \<not> (\<lambda>k. k \<noteq> 1) (1::nat) \<and>
   run_pipeline (\<lambda>k. k \<noteq> 1) [''ls -l '', ''wc'', ''echo hi &''] True =
     [Pipe 0,
      Fork (Some (Inr [Dup2 (PipeWr 0) STDOUT_FILENO, Setpgid, Execvp [''ls'', ''-l'']])),
      PDup2 (PipeRd 0) STDIN_FILENO, PClose (PipeWr 0),
      Pipe 1, Fork None, Print_error 0,
      PDup2 (PipeRd 1) STDIN_FILENO,
      Fork (Some (Inr [Setpgid, Execvp [''echo'', ''hi'']])),
      PClose (PipeWr 1)]"
proof -
  let ?P = "[''ls -l '', ''wc'', ''echo hi &'']"
  note T = C4_read_ends_stay_open [where piped = ?P and bg = True and forks = "\<lambda>k. True"]
  note F = C4_read_ends_stay_open [where piped = ?P and bg = True and forks = "\<lambda>k. k \<noteq> 1"
      and i = 1]
  have h: "2 \<le> length ?P"
    by simp
  have p: "parse_line ''ls -l | wc; echo hi &'' = Inr (?P, True)"
    by code_simp
  have st: "child_stage ?P True 0 =
      Inr [Dup2 (PipeWr 0) STDOUT_FILENO, Setpgid, Execvp [''ls'', ''-l'']]"
    "child_stage ?P True 1 = Inr [Dup2 (PipeWr 1) STDOUT_FILENO, Setpgid, Execvp [''wc'']]"
    "child_last ?P True = Inr [Setpgid, Execvp [''echo'', ''hi'']]"
    by code_simp+
  have u: "[0..<length ?P - 1] = [0, 1]" "[0..<(1::nat)] = [0]"
    by (simp_all add: upt_rec)
  from T h have "held_pipe_ends (run_pipeline (\<lambda>k. True) ?P True) =
      map PipeRd [0..<length ?P - 1]"
    by blast
  then have c1: "held_pipe_ends (run_pipeline (\<lambda>k. True) ?P True) = [PipeRd 0, PipeRd 1]"
    unfolding u by simp
  have h2: "2 \<le> length ?P \<and> (\<forall>k < length ?P - 1. (\<lambda>k. True) k)"
    by simp
  have "run_pipeline (\<lambda>k. True) ?P True =
        concat (map (\<lambda>k. [Pipe k, Fork (Some (child_stage ?P True k)),
                           PDup2 (PipeRd k) STDIN_FILENO, PClose (PipeWr k)])
                  [0..<length ?P - 1])
          @ [PDup2 (PipeRd (length ?P - 2)) STDIN_FILENO]
          @ (if (\<lambda>k. True) (length ?P - 1) then [Fork (Some (child_last ?P True))]
             else [Fork None, Print_error 0])
          @ (if True then [] else [Wait])
          @ [PClose (PipeWr (length ?P - 2))]"
    by (rule T [THEN conjunct2, THEN conjunct2, THEN conjunct2, THEN conjunct2,
          THEN conjunct1, THEN mp, OF h2])
  then have c2: "run_pipeline (\<lambda>k. True) ?P True =
     [Pipe 0,
      Fork (Some (Inr [Dup2 (PipeWr 0) STDOUT_FILENO, Setpgid, Execvp [''ls'', ''-l'']])),
      PDup2 (PipeRd 0) STDIN_FILENO, PClose (PipeWr 0),
      Pipe 1,
      Fork (Some (Inr [Dup2 (PipeWr 1) STDOUT_FILENO, Setpgid, Execvp [''wc'']])),
      PDup2 (PipeRd 1) STDIN_FILENO, PClose (PipeWr 1),
      PDup2 (PipeRd 1) STDIN_FILENO,
      Fork (Some (Inr [Setpgid, Execvp [''echo'', ''hi'']])),
      PClose (PipeWr 1)]"
    using st by (simp add: u)
  have h3: "1 + 1 < length ?P \<and> (\<forall>k < 1. (\<lambda>k::nat. k \<noteq> 1) k) \<and> \<not> (\<lambda>k::nat. k \<noteq> 1) 1"
    by simp
  have "run_pipeline (\<lambda>k. k \<noteq> 1) ?P True =
        concat (map (\<lambda>k. [Pipe k, Fork (Some (child_stage ?P True k)),
                           PDup2 (PipeRd k) STDIN_FILENO, PClose (PipeWr k)]) [0..<1])
          @ [Pipe 1, Fork None, Print_error 0, PDup2 (PipeRd 1) STDIN_FILENO]
          @ (if (\<lambda>k. k \<noteq> 1) (1 + 1 :: nat) then [Fork (Some (child_last ?P True))]
             else [Fork None, Print_error 0])
          @ (if True then [] else [Wait])
          @ [PClose (PipeWr 1)]"
    by (rule F [THEN conjunct2, THEN conjunct2, THEN conjunct2, THEN conjunct2,
          THEN conjunct2, THEN mp, OF h3])
  then have c3: "run_pipeline (\<lambda>k. k \<noteq> 1) ?P True =
     [Pipe 0,
      Fork (Some (Inr [Dup2 (PipeWr 0) STDOUT_FILENO, Setpgid, Execvp [''ls'', ''-l'']])),
      PDup2 (PipeRd 0) STDIN_FILENO, PClose (PipeWr 0),
      Pipe 1, Fork None, Print_error 0,
      PDup2 (PipeRd 1) STDIN_FILENO,
      Fork (Some (Inr [Setpgid, Execvp [''echo'', ''hi'']])),
      PClose (PipeWr 1)]"
    using st by (simp add: u)
  from h p c1 c2 c3 show ?thesis
    by simp
qed

text \<open>
  C4 as the specification states it fails at \<open>ls | wc\<close>: the parent closes the write end
  of the pipe twice and the read end never, so one pipe descriptor is still open when the
  pipeline has been launched and waited for.
\<close>

theorem C4_counterexample:
  "parse_line ''ls | wc'' = Inr ([''ls '', ''wc''], False) \<and>
   run_pipeline (\<lambda>k. True) [''ls '', ''wc''] False =
     [Pipe 0, Fork (Some (Inr [Dup2 (PipeWr 0) STDOUT_FILENO, Execvp [''ls'']])),
      PDup2 (PipeRd 0) STDIN_FILENO, PClose (PipeWr 0),
      PDup2 (PipeRd 0) STDIN_FILENO, Fork (Some (Inr [Execvp [''wc'']])), Wait,
      PClose (PipeWr 0)] \<and>
   held_pipe_ends (run_pipeline (\<lambda>k. True) [''ls '', ''wc''] False) = [PipeRd 0] \<and>
   held_pipe_ends (run_pipeline (\<lambda>k. True) [''ls '', ''wc''] False) \<noteq> []"
proof -
  have "parse_line ''ls | wc'' = Inr ([''ls '', ''wc''], False)"
    by code_simp
  moreover have tr: "run_pipeline (\<lambda>k. True) [''ls '', ''wc''] False =
     [Pipe 0, Fork (Some (Inr [Dup2 (PipeWr 0) STDOUT_FILENO, Execvp [''ls'']])),
      PDup2 (PipeRd 0) STDIN_FILENO, PClose (PipeWr 0),
      PDup2 (PipeRd 0) STDIN_FILENO, Fork (Some (Inr [Execvp [''wc'']])), Wait,
      PClose (PipeWr 0)]"
    by code_simp
  moreover have "held_pipe_ends (run_pipeline (\<lambda>k. True) [''ls '', ''wc''] False) = [PipeRd 0]"
    unfolding tr by (simp add: held_pipe_ends_def)
  ultimately show ?thesis
    by simp
qed

text \<open>
  C5. For every token list, redirection resolution looks at the second-to-last token only:
  \<open>>>\<close> gives \<open>OutputAppend\<close> of the last token, otherwise a token whose first character is
  \<open>>\<close> gives \<open>OutputTruncate\<close> of the last token, otherwise \<open><\<close> gives \<open>Input\<close> of the last
  token, and a list of fewer than two tokens has no redirect. With a redirect the last two
  tokens are removed from the argument vector: the calls of \<open>run_cmd\<close> behind the tokenizer
  are the calls of the resolved redirect, then \<open>execvp\<close> on the remaining tokens. The
  tokens \<open>ls\<close>, \<open>-l\<close>, \<open>>\<close>, \<open>out.txt\<close> resolve to \<open>ls\<close>, \<open>-l\<close> with
  \<open>OutputTruncate\<close> of \<open>out.txt\<close>.
\<close>

theorem C5_redirection_resolution:
  "run_cmd_tokens tokens =
     redirect_calls (snd (resolve_spec tokens)) @ [Execvp (fst (resolve_spec tokens))]
   \<and> resolve_spec [''ls'', ''-l'', ''>'', ''out.txt''] =
       ([''ls'', ''-l''], OutputTruncate ''out.txt'')
   \<and> run_cmd_tokens [''ls'', ''-l'', ''>'', ''out.txt''] =
       [Close STDOUT_FILENO, Open ''out.txt'' FILEFLAGS (Some RW_PERMS),
        Dup2 FileFd STDOUT_FILENO, Execvp [''ls'', ''-l'']]"
proof (intro conjI)
  show "run_cmd_tokens tokens =
      redirect_calls (snd (resolve_spec tokens)) @ [Execvp (fst (resolve_spec tokens))]"
    by (rule run_cmd_tokens_resolve)
  show "resolve_spec [''ls'', ''-l'', ''>'', ''out.txt''] =
      ([''ls'', ''-l''], OutputTruncate ''out.txt'')"
    by (simp add: resolve_spec_def)
  then show "run_cmd_tokens [''ls'', ''-l'', ''>'', ''out.txt''] =
      [Close STDOUT_FILENO, Open ''out.txt'' FILEFLAGS (Some RW_PERMS),
       Dup2 FileFd STDOUT_FILENO, Execvp [''ls'', ''-l'']]"
    by (simp add: run_cmd_tokens_resolve)
qed

text \<open>
  C6. The claim is what the macros of lines 10 and 11 and the comment of line 162 aim at,
  and the calls miss it. Output-truncate redirection passes \<open>FILEFLAGS\<close>, in which the
  permission bits are or-ed into the flags: the bit of \<open>S_IWUSR\<close> is the bit of \<open>O_EXCL\<close>,
  so the call creates an absent target and fails with \<open>EEXIST\<close> on a target that exists.
  Output-append redirection passes \<open>FILEFLAGS_APPEND\<close>, write-only in append mode, which
  holds no \<open>O_CREAT\<close>: the call fails with \<open>ENOENT\<close> on an absent target. The permission
  argument of both is \<open>RW_PERMS\<close>, octal 0666, which grants write access to group and
  others too. Input redirection opens the file read-only and fails with \<open>ENOENT\<close> on an
  absent path, as the claim says. The lines \<open>echo hi >> log.txt\<close> and \<open>echo hi > out.txt\<close>
  make these calls.
\<close>

theorem C6_open_outcomes:
  "run_cmd_tokens (args @ [''>'', path]) =
     [Close STDOUT_FILENO, Open path FILEFLAGS (Some RW_PERMS), Dup2 FileFd STDOUT_FILENO,
      Execvp args] \<and>
   run_cmd_tokens (args @ [''>>'', path]) =
     [Close STDOUT_FILENO, Open path FILEFLAGS_APPEND (Some RW_PERMS), Dup2 FileFd STDOUT_FILENO,
      Execvp args] \<and>
   run_cmd_tokens (args @ [''<'', path]) =
     [Close STDIN_FILENO, Open path O_RDONLY None, Dup2 FileFd STDIN_FILENO, Execvp args] \<and>
   open_file False FILEFLAGS (Some RW_PERMS) = Created (Some RW_PERMS) \<and>
   open_file True FILEFLAGS (Some RW_PERMS) = Open_fails EEXIST \<and>
   S_IWUSR = O_EXCL \<and> exclusive FILEFLAGS \<and> access_mode FILEFLAGS = O_WRONLY \<and>
   open_file False FILEFLAGS_APPEND (Some RW_PERMS) = Open_fails ENOENT \<and>
   open_file True FILEFLAGS_APPEND (Some RW_PERMS) = Opened False \<and>
   append_mode FILEFLAGS_APPEND \<and> access_mode FILEFLAGS_APPEND = O_WRONLY \<and>
   RW_PERMS = S_IRUSR OR S_IWUSR OR S_IRGRP OR S_IWGRP OR S_IROTH OR S_IWOTH \<and>
   grants RW_PERMS S_IWGRP \<and> grants RW_PERMS S_IWOTH \<and>
   open_file False O_RDONLY None = Open_fails ENOENT \<and>
   open_file True O_RDONLY None = Opened False \<and> access_mode O_RDONLY = O_RDONLY \<and>
   run_cmd ''echo hi >> log.txt'' False =
     Inr [Close STDOUT_FILENO, Open ''log.txt'' FILEFLAGS_APPEND (Some RW_PERMS),
          Dup2 FileFd STDOUT_FILENO, Execvp [''echo'', ''hi'']] \<and>
   run_cmd ''echo hi > out.txt'' False =
     Inr [Close STDOUT_FILENO, Open ''out.txt'' FILEFLAGS (Some RW_PERMS),
          Dup2 FileFd STDOUT_FILENO, Execvp [''echo'', ''hi'']]"
proof -
  have calls: "run_cmd_tokens (args @ [''>'', path]) =
      [Close STDOUT_FILENO, Open path FILEFLAGS (Some RW_PERMS), Dup2 FileFd STDOUT_FILENO,
       Execvp args]"
    "run_cmd_tokens (args @ [''>>'', path]) =
      [Close STDOUT_FILENO, Open path FILEFLAGS_APPEND (Some RW_PERMS),
       Dup2 FileFd STDOUT_FILENO, Execvp args]"
    "run_cmd_tokens (args @ [''<'', path]) =
      [Close STDIN_FILENO, Open path O_RDONLY None, Dup2 FileFd STDIN_FILENO, Execvp args]"
    by (simp_all add: run_cmd_tokens_resolve resolve_spec_redirect)
  have trunc: "open_file False FILEFLAGS (Some RW_PERMS) = Created (Some RW_PERMS)"
    "open_file True FILEFLAGS (Some RW_PERMS) = Open_fails EEXIST"
    "S_IWUSR = O_EXCL" "exclusive FILEFLAGS" "access_mode FILEFLAGS = O_WRONLY"
    by (simp_all add: open_file_def creates_if_absent_def exclusive_def access_mode_def
        header_defs)
  have app: "open_file False FILEFLAGS_APPEND (Some RW_PERMS) = Open_fails ENOENT"
    "open_file True FILEFLAGS_APPEND (Some RW_PERMS) = Opened False"
    "append_mode FILEFLAGS_APPEND" "access_mode FILEFLAGS_APPEND = O_WRONLY"
    by (simp_all add: open_file_def creates_if_absent_def exclusive_def access_mode_def
        append_mode_def header_defs)
  have perms: "RW_PERMS = S_IRUSR OR S_IWUSR OR S_IRGRP OR S_IWGRP OR S_IROTH OR S_IWOTH"
    "grants RW_PERMS S_IWGRP" "grants RW_PERMS S_IWOTH"
    by (simp_all add: grants_def header_defs)
  have inp: "open_file False O_RDONLY None = Open_fails ENOENT"
    "open_file True O_RDONLY None = Opened False" "access_mode O_RDONLY = O_RDONLY"
    by (simp_all add: open_file_def creates_if_absent_def exclusive_def access_mode_def
        header_defs)
  have runs: "run_cmd ''echo hi >> log.txt'' False =
     Inr [Close STDOUT_FILENO, Open ''log.txt'' FILEFLAGS_APPEND (Some RW_PERMS),
          Dup2 FileFd STDOUT_FILENO, Execvp [''echo'', ''hi'']]"
    "run_cmd ''echo hi > out.txt'' False =
     Inr [Close STDOUT_FILENO, Open ''out.txt'' FILEFLAGS (Some RW_PERMS),
          Dup2 FileFd STDOUT_FILENO, Execvp [''echo'', ''hi'']]"
    by code_simp+
  from calls trunc app perms inp runs show ?thesis
    by blast
qed

text \<open>
  C7, amended. A \<open>&\<close> outside quotes anywhere in the line, and nothing else, sets the
  background flag of the whole pipeline (on a line without quotes: the flag is set exactly
  when the line holds a \<open>&\<close>). The \<open>&\<close> is no separator and stays in the text of its
  segment. For every line the segments are those of the scan, which has no case for \<open>&\<close>:
  the line with a letter in the place of every \<open>&\<close> gives the same segments with that
  letter in the place of every \<open>&\<close>; every \<open>&\<close> of the line stands in the segments, unless
  the text behind the last separator is the one character \<open>&\<close> and is left out as every
  last segment of one character is; and a line of two characters or more without \<open>|\<close>
  and \<open>;\<close> is one segment, the line itself. Only the marker that \<open>splitByPipe\<close> appends
  is removed by the caller.
\<close>

theorem C7_background_flag:
  "(\<exists>segments. parse_line line = Inr (segments, unquoted_amp False line)) \<and>
   (dquote \<notin> set line \<longrightarrow>
      (\<exists>segments. parse_line line = Inr (segments, CHR ''&'' \<in> set line))) \<and>
   (CHR ''|'' \<notin> set input \<and> CHR '';'' \<notin> set input \<and> 2 \<le> length input \<longrightarrow>
      parse_line input = Inr ([input], unquoted_amp False input)) \<and>
   parse_line line =
     Inr (butlast (segments_spec False [] line) @
            (if line = [] \<or> 2 \<le> length (last (segments_spec False [] line))
             then [last (segments_spec False [] line)] else []),
          unquoted_amp False line) \<and>
   (\<exists>segments.
      parse_line line = Inr (segments, unquoted_amp False line) \<and>
      parse_line (map (\<lambda>c. if c = CHR ''&'' then CHR ''x'' else c) line) =
        Inr (map (map (\<lambda>c. if c = CHR ''&'' then CHR ''x'' else c)) segments, False) \<and>
      (last (segments_spec False [] line) \<noteq> ''&'' \<longrightarrow>
         count_list (concat segments) (CHR ''&'') = count_list line (CHR ''&'')))"
proof (intro conjI impI)
  show "\<exists>segments. parse_line line = Inr (segments, unquoted_amp False line)"
    by (simp add: parse_line_refines)
next
  assume "dquote \<notin> set line"
  then have "unquoted_amp False line = (CHR ''&'' \<in> set line)"
    using unquoted_amp_append [of line "[]"] by simp
  then show "\<exists>segments. parse_line line = Inr (segments, CHR ''&'' \<in> set line)"
    by (simp add: parse_line_refines)
next
  assume "CHR ''|'' \<notin> set input \<and> CHR '';'' \<notin> set input \<and> 2 \<le> length input"
  then have "segments_spec False [] input = [input]" and "2 \<le> length input"
    by (simp_all add: segments_spec_no_sep)
  then show "parse_line input = Inr ([input], unquoted_amp False input)"
    by (simp add: parse_line_refines)
next
  show "parse_line line =
     Inr (butlast (segments_spec False [] line) @
            (if line = [] \<or> 2 \<le> length (last (segments_spec False [] line))
             then [last (segments_spec False [] line)] else []),
          unquoted_amp False line)"
    by (rule parse_line_refines)
next
  let ?segs = "butlast (segments_spec False [] line) @
      (if line = [] \<or> 2 \<le> length (last (segments_spec False [] line))
       then [last (segments_spec False [] line)] else [])"
  have "parse_line line = Inr (?segs, unquoted_amp False line)"
    by (rule parse_line_refines)
  moreover have "parse_line (map (\<lambda>c. if c = CHR ''&'' then CHR ''x'' else c) line) =
      Inr (map (map (\<lambda>c. if c = CHR ''&'' then CHR ''x'' else c)) ?segs, False)"
    by (rule parse_line_amp_letter)
  moreover have "last (segments_spec False [] line) \<noteq> ''&'' \<longrightarrow>
      count_list (concat ?segs) (CHR ''&'') = count_list line (CHR ''&'')"
    using parse_line_count_amp [of line] by blast
  ultimately show "\<exists>segments.
      parse_line line = Inr (segments, unquoted_amp False line) \<and>
      parse_line (map (\<lambda>c. if c = CHR ''&'' then CHR ''x'' else c) line) =
        Inr (map (map (\<lambda>c. if c = CHR ''&'' then CHR ''x'' else c)) segments, False) \<and>
      (last (segments_spec False [] line) \<noteq> ''&'' \<longrightarrow>
         count_list (concat segments) (CHR ''&'') = count_list line (CHR ''&''))"
    by blast
qed

text \<open>
  The theorem at the line \<open>a & \<close>: one segment, the whole line with its \<open>&\<close> and its
  spaces, and the background flag set; and at the line \<open>aa & | bb\<close>, whose first segment
  keeps its \<open>&\<close>.
\<close>

theorem C7_background_flag_witness:
  "dquote \<notin> set ''a & '' \<and> CHR ''|'' \<notin> set ''a & '' \<and> CHR '';'' \<notin> set ''a & '' \<and>
   2 \<le> length ''a & '' \<and> CHR ''&'' \<in> set ''a & '' \<and>
   parse_line ''a & '' = Inr ([''a & ''], True) \<and>
   dquote \<notin> set ''aa & | bb'' \<and>
   last (segments_spec False [] ''aa & | bb'') \<noteq> ''&'' \<and>
   parse_line ''aa & | bb'' = Inr ([''aa & '', ''bb''], True) \<and>
   parse_line ''aa x | bb'' = Inr ([''aa x '', ''bb''], False) \<and>
   count_list (concat [''aa & '', ''bb'']) (CHR ''&'') = count_list ''aa & | bb'' (CHR ''&'')"
proof -
  have h: "CHR ''|'' \<notin> set ''a & '' \<and> CHR '';'' \<notin> set ''a & '' \<and> 2 \<le> length ''a & ''"
    by simp
  have q: "dquote \<notin> set ''a & ''" "dquote \<notin> set ''aa & | bb''"
    by (simp_all add: dquote_def)
  have a: "unquoted_amp False ''a & '' = True" "unquoted_amp False ''aa & | bb'' = True"
    by (simp_all add: dquote_def)
  have S: "segments_spec False [] ''aa & | bb'' = [''aa & '', ''bb'']"
    by (simp add: dquote_def)
  note T = C7_background_flag [of "''aa & | bb''" "''a & ''"]
  from T h have "parse_line ''a & '' = Inr ([''a & ''], unquoted_amp False ''a & '')"
    by blast
  then have c1: "parse_line ''a & '' = Inr ([''a & ''], True)"
    unfolding a by simp
  from T q(2) have "\<exists>segments. parse_line ''aa & | bb'' =
      Inr (segments, CHR ''&'' \<in> set ''aa & | bb'')"
    by blast
  have l: "last (segments_spec False [] ''aa & | bb'') \<noteq> ''&''"
    unfolding S by simp
  from T have "parse_line ''aa & | bb'' =
     Inr (butlast (segments_spec False [] ''aa & | bb'') @
            (if ''aa & | bb'' = [] \<or> 2 \<le> length (last (segments_spec False [] ''aa & | bb''))
             then [last (segments_spec False [] ''aa & | bb'')] else []),
          unquoted_amp False ''aa & | bb'')"
    by blast
  then have c2: "parse_line ''aa & | bb'' = Inr ([''aa & '', ''bb''], True)"
    unfolding S a by simp
  from T obtain segments where
    s1: "parse_line ''aa & | bb'' = Inr (segments, unquoted_amp False ''aa & | bb'')"
    and s2: "parse_line (map (\<lambda>c. if c = CHR ''&'' then CHR ''x'' else c) ''aa & | bb'') =
        Inr (map (map (\<lambda>c. if c = CHR ''&'' then CHR ''x'' else c)) segments, False)"
    and s3: "last (segments_spec False [] ''aa & | bb'') \<noteq> ''&'' \<longrightarrow>
         count_list (concat segments) (CHR ''&'') = count_list ''aa & | bb'' (CHR ''&'')"
    by blast
  from s1 c2 have segs: "segments = [''aa & '', ''bb'']"
    by simp
  from s2 have c3: "parse_line ''aa x | bb'' = Inr ([''aa x '', ''bb''], False)"
    unfolding segs by simp
  from s3 l have c4: "count_list (concat [''aa & '', ''bb'']) (CHR ''&'') =
      count_list ''aa & | bb'' (CHR ''&'')"
    unfolding segs by blast
  from h q a c1 l c2 c3 c4 show ?thesis
    by simp
qed

text \<open>
  C7 as the specification states it fails at its own example: the segment of \<open>a & \<close> is not
  the trimmed \<open>a\<close>, and the child passes \<open>&\<close> to the program as an argument.
\<close>

theorem C7_counterexample:
  "parse_line ''a & '' = Inr ([''a & ''], True) \<and>
   parse_line ''a & '' \<noteq> Inr ([''a''], True) \<and>
   run_cmd ''a & '' True = Inr [Setpgid, Execvp [''a'', ''&'']]"
proof -
  have "parse_line ''a & '' = Inr ([''a & ''], True)"
    by code_simp
  moreover have "run_cmd ''a & '' True = Inr [Setpgid, Execvp [''a'', ''&'']]"
    by code_simp
  ultimately show ?thesis by simp
qed

text \<open>
  C8, amended. Tokenizing a segment that consists of \<open>n\<close> spaces and nothing else, \<open>n\<close> at
  least one, gives \<open>n\<close> empty tokens, one for each space: every space ends a token, and
  empty tokens are kept. More generally \<open>tokenize\<close> returns a token list that is not empty
  for every segment that contains a space, so for every segment that is only spaces or
  ends with spaces.
\<close>

theorem C8_spaces_only:
  "tokenize (replicate (Suc n) (CHR '' '')) = Inr (replicate (Suc n) []) \<and>
   (CHR '' '' \<in> set input \<longrightarrow> (\<exists>tokens. tokenize input = Inr tokens \<and> tokens \<noteq> []))"
proof (intro conjI impI)
  show "tokenize (replicate (Suc n) (CHR '' '')) = Inr (replicate (Suc n) [])"
    by (rule tokenize_spaces)
next
  assume "CHR '' '' \<in> set input"
  then have "tokenize input \<noteq> Inr []"
    by (rule tokenize_nonempty_of_space)
  then show "\<exists>tokens. tokenize input = Inr tokens \<and> tokens \<noteq> []"
    by (simp add: tokenize_refines)
qed

text \<open>
  The segment \<open>ls\<close> followed by one space contains a space and tokenizes to the one token
  \<open>ls\<close>; three spaces tokenize to three empty tokens.
\<close>

theorem C8_spaces_only_witness:
  "CHR '' '' \<in> set ''ls '' \<and> tokenize ''ls '' = Inr [''ls''] \<and> [''ls''] \<noteq> [] \<and>
   tokenize (replicate (Suc 2) (CHR '' '')) = Inr ['''', '''', '''']"
proof -
  have h: "CHR '' '' \<in> set ''ls ''"
    by simp
  from C8_spaces_only [of 2 "''ls ''"] h
  obtain tokens where t: "tokenize ''ls '' = Inr tokens" "tokens \<noteq> []"
    by blast
  have e: "tokenize ''ls '' = Inr [''ls'']"
    by code_simp
  from C8_spaces_only [of 2 "''ls ''"]
  have "tokenize (replicate (Suc 2) (CHR '' '')) = Inr (replicate (Suc 2) [])"
    by blast
  then have "tokenize (replicate (Suc 2) (CHR '' '')) = Inr ['''', '''', '''']"
    by (simp add: numeral_2_eq_2)
  with h e t show ?thesis
    by simp
qed

text \<open>
  C8 as the specification states it fails at the empty string and at a single space: both
  give one empty token, not the empty list.
\<close>

theorem C8_counterexample:
  "tokenize '''' = Inr [''''] \<and> tokenize '''' \<noteq> Inr [] \<and>
   tokenize '' '' = Inr [''''] \<and> tokenize '' '' \<noteq> Inr []"
proof -
  have "tokenize '''' = Inr ['''']"
    by (simp add: tokenize_def tokenize_loop_end size_minus_one_def substr_from_def)
  moreover have "tokenize '' '' = Inr ['''']"
    by code_simp
  ultimately show ?thesis by simp
qed

text \<open>
  C9. When the text behind the last delimiter is exactly one character long, \<open>tokenize\<close>
  leaves that last token out, and \<open>splitByPipe\<close> leaves such a last segment out: for
  every input, in terms of the text that the scan leaves behind its last delimiter; for a
  space behind a prefix without quotes and for a separator behind such a prefix, as an
  equation between strings; \<open>echo a\<close> gives the one token \<open>echo\<close>, and a quoted \<open>ab\<close>
  with \<open>c\<close> behind its closing quote gives the one token \<open>ab\<close>. The reason is the
  test both functions share: the rest is appended only when the final \<open>start\<close> is below
  \<open>input.size() - 1\<close>.
\<close>

theorem C9_one_char_remainder:
  "(length (last (tokens_spec [] input)) = 1 \<longrightarrow>
      tokenize input = Inr (butlast (tokens_spec [] input))) \<and>
   (length (last (segments_spec False [] line)) = 1 \<longrightarrow>
      splitByPipe line =
        Inr (butlast (segments_spec False [] line)
             @ [if unquoted_amp False line then ''&'' else ''-''])) \<and>
   (dquote \<notin> set pre \<and> c \<noteq> CHR '' '' \<and> c \<noteq> dquote \<longrightarrow>
      tokenize (pre @ [CHR '' '', c]) = tokenize (pre @ [CHR '' ''])) \<and>
   (dquote \<notin> set pre' \<and> (sep = CHR ''|'' \<or> sep = CHR '';'') \<and>
    c' \<noteq> CHR ''|'' \<and> c' \<noteq> CHR '';'' \<and> c' \<noteq> dquote \<and> c' \<noteq> CHR ''&'' \<longrightarrow>
      splitByPipe (pre' @ [sep, c']) = splitByPipe (pre' @ [sep])) \<and>
   (tokenize_loop input 0 0 [] = Inr (start, tokens) \<longrightarrow>
      tokenize input =
        Inr (if start < size_minus_one (length input) then tokens @ [drop start input]
             else tokens)) \<and>
   (split_loop line 0 0 False [] = Inr (start', background, segments) \<longrightarrow>
      splitByPipe line =
        Inr ((if start' < size_minus_one (length line) then segments @ [drop start' line]
              else segments) @ [if background then ''&'' else ''-''])) \<and>
   tokenize ''echo a'' = Inr [''echo''] \<and>
   tokenize ([dquote] @ ''ab'' @ [dquote] @ ''c'') = Inr [''ab'']"
proof (intro conjI impI)
  assume "length (last (tokens_spec [] input)) = 1"
  moreover from this have "input \<noteq> []"
    by auto
  ultimately show "tokenize input = Inr (butlast (tokens_spec [] input))"
    by (simp add: tokenize_refines tokenize_spec_def Let_def)
next
  assume "length (last (segments_spec False [] line)) = 1"
  moreover from this have "line \<noteq> []"
    by auto
  ultimately show "splitByPipe line =
      Inr (butlast (segments_spec False [] line)
           @ [if unquoted_amp False line then ''&'' else ''-''])"
    by (simp add: splitByPipe_refines split_spec_def Let_def)
next
  assume "dquote \<notin> set pre \<and> c \<noteq> CHR '' '' \<and> c \<noteq> dquote"
  then show "tokenize (pre @ [CHR '' '', c]) = tokenize (pre @ [CHR '' ''])"
    by (intro tokenize_one_char_after_space) simp_all
next
  assume "dquote \<notin> set pre' \<and> (sep = CHR ''|'' \<or> sep = CHR '';'') \<and>
    c' \<noteq> CHR ''|'' \<and> c' \<noteq> CHR '';'' \<and> c' \<noteq> dquote \<and> c' \<noteq> CHR ''&''"
  then show "splitByPipe (pre' @ [sep, c']) = splitByPipe (pre' @ [sep])"
    by (intro splitByPipe_one_char_after_sep) simp_all
next
  assume "tokenize_loop input 0 0 [] = Inr (start, tokens)"
  then show "tokenize input =
      Inr (if start < size_minus_one (length input) then tokens @ [drop start input]
           else tokens)"
    by (rule tokenize_loop_final)
next
  assume "split_loop line 0 0 False [] = Inr (start', background, segments)"
  then show "splitByPipe line =
      Inr ((if start' < size_minus_one (length line) then segments @ [drop start' line]
            else segments) @ [if background then ''&'' else ''-''])"
    by (rule split_loop_final)
next
  show "tokenize ''echo a'' = Inr [''echo'']"
    by code_simp
  show "tokenize ([dquote] @ ''ab'' @ [dquote] @ ''c'') = Inr [''ab'']"
    by code_simp
qed

text \<open>
  The theorem at \<open>echo a\<close> and at \<open>ls | a\<close>: both loops end with \<open>start = 5\<close> on an input of
  six characters, and the last character is left out.
\<close>

theorem C9_one_char_remainder_witness:
  "length (last (tokens_spec [] ''echo a'')) = 1 \<and>
   tokenize ''echo a'' = Inr [''echo''] \<and>
   length (last (segments_spec False [] ''ls | a'')) = 1 \<and>
   splitByPipe ''ls | a'' = Inr [''ls '', ''-''] \<and>
   dquote \<notin> set ''echo'' \<and> tokenize ''echo a'' = tokenize ''echo '' \<and>
   dquote \<notin> set ''ls '' \<and> splitByPipe ''ls |a'' = splitByPipe ''ls |'' \<and>
   tokenize_loop ''echo a'' 0 0 [] = Inr (5, [''echo'']) \<and>
   \<not> 5 < size_minus_one (length ''echo a'') \<and>
   split_loop ''ls | a'' 0 0 False [] = Inr (5, False, [''ls '']) \<and>
   \<not> 5 < size_minus_one (length ''ls | a'')"
proof -
  note T = C9_one_char_remainder [where input = "''echo a''" and line = "''ls | a''"
      and pre = "''echo''" and c = "CHR ''a''" and pre' = "''ls ''" and sep = "CHR ''|''"
      and c' = "CHR ''a''" and start = 5 and tokens = "[''echo'']" and start' = 5
      and background = False and segments = "[''ls '']"]
  have tk: "tokens_spec [] ''echo a'' = [''echo'', ''a'']"
    by (simp add: dquote_def)
  have sg: "segments_spec False [] ''ls | a'' = [''ls '', ''a'']"
    by (simp add: dquote_def)
  have am: "unquoted_amp False ''ls | a'' = False"
    by (simp add: dquote_def)
  have p1: "length (last (tokens_spec [] ''echo a'')) = 1"
    unfolding tk by simp
  have p2: "length (last (segments_spec False [] ''ls | a'')) = 1"
    unfolding sg by simp
  have p3: "dquote \<notin> set ''echo''" "dquote \<notin> set ''ls ''"
    by (simp_all add: dquote_def)
  have p4: "tokenize_loop ''echo a'' 0 0 [] = Inr (5, [''echo''])"
    by code_simp
  have p5: "split_loop ''ls | a'' 0 0 False [] = Inr (5, False, [''ls ''])"
    by code_simp
  have p6: "\<not> 5 < size_minus_one (length ''echo a'')" "\<not> 5 < size_minus_one (length ''ls | a'')"
    by (simp_all add: size_minus_one_def)
  have h3: "dquote \<notin> set ''echo'' \<and> CHR ''a'' \<noteq> CHR '' '' \<and> CHR ''a'' \<noteq> dquote"
    by (simp add: dquote_def)
  have h4: "dquote \<notin> set ''ls '' \<and> (CHR ''|'' = CHR ''|'' \<or> CHR ''|'' = CHR '';'') \<and>
      CHR ''a'' \<noteq> CHR ''|'' \<and> CHR ''a'' \<noteq> CHR '';'' \<and> CHR ''a'' \<noteq> dquote \<and>
      CHR ''a'' \<noteq> CHR ''&''"
    by (simp add: dquote_def)
  have "tokenize ''echo a'' = Inr (butlast (tokens_spec [] ''echo a''))"
    by (rule T [THEN conjunct1, THEN mp, OF p1])
  then have c1: "tokenize ''echo a'' = Inr [''echo'']"
    unfolding tk by simp
  have "splitByPipe ''ls | a'' =
      Inr (butlast (segments_spec False [] ''ls | a'')
           @ [if unquoted_amp False ''ls | a'' then ''&'' else ''-''])"
    by (rule T [THEN conjunct2, THEN conjunct1, THEN mp, OF p2])
  then have c2: "splitByPipe ''ls | a'' = Inr [''ls '', ''-'']"
    unfolding sg am by simp
  have "tokenize (''echo'' @ [CHR '' '', CHR ''a'']) = tokenize (''echo'' @ [CHR '' ''])"
    by (rule T [THEN conjunct2, THEN conjunct2, THEN conjunct1, THEN mp, OF h3])
  then have c3: "tokenize ''echo a'' = tokenize ''echo ''"
    by simp
  have "splitByPipe (''ls '' @ [CHR ''|'', CHR ''a'']) = splitByPipe (''ls '' @ [CHR ''|''])"
    by (rule T [THEN conjunct2, THEN conjunct2, THEN conjunct2, THEN conjunct1, THEN mp, OF h4])
  then have c4: "splitByPipe ''ls |a'' = splitByPipe ''ls |''"
    by simp
  from p1 c1 p2 c2 p3 c3 c4 p4 p5 p6 show ?thesis
    by blast
qed




end
